theory Spec2Isabelle
  imports Main "HOL-Library.Char_ord" "HOL-Library.List_Lexorder" "HOL-Library.Multiset"
begin

section \<open>Python library functions used by the crawler\<close>

text \<open>
  The crawler (crawl_dc.py) is Python. Its strings are modelled as \<open>string\<close> (the UTF-8
  bytes of the text), its unbounded integers as \<open>int\<close>, and every exception as a value of
  \<open>exn\<close>: a function that can raise returns \<open>exn + 'a\<close> with \<open>Inl\<close> for the exception.
  The library functions below follow CPython's pure-Python \<open>datetime\<close> and \<open>_strptime\<close>
  modules on ASCII text.
\<close>

datatype exn = ValueError | KeyError | OverflowError

subsection \<open>Strings\<close>

definition is_space :: "char \<Rightarrow> bool" where
  "is_space c = (c \<in> set [CHR '' '', CHR 0x09, CHR 0x0A, CHR 0x0B, CHR 0x0C, CHR 0x0D,
                            CHR 0x1C, CHR 0x1D, CHR 0x1E, CHR 0x1F])"

definition is_digit :: "char \<Rightarrow> bool" where
  "is_digit c = (c \<in> set ''0123456789'')"

text \<open>\<open>s.strip(chars)\<close>.\<close>

definition strip_chars :: "string \<Rightarrow> string \<Rightarrow> string" where
  "strip_chars cs s = rev (dropWhile (\<lambda>c. c \<in> set cs) (rev (dropWhile (\<lambda>c. c \<in> set cs) s)))"

text \<open>\<open>s.startswith(p)\<close>, \<open>sub in s\<close>, \<open>s.isdigit()\<close>, \<open>s.split(sep)\<close> for a one-character separator.\<close>

definition startswith :: "string \<Rightarrow> string \<Rightarrow> bool" where
  "startswith s p = (take (length p) s = p)"

fun contains :: "string \<Rightarrow> string \<Rightarrow> bool" where
  "contains sub [] = (sub = [])"
| "contains sub (c # cs) = (startswith (c # cs) sub \<or> contains sub cs)"

definition isdigit :: "string \<Rightarrow> bool" where
  "isdigit s = (s \<noteq> [] \<and> list_all is_digit s)"

fun split_on :: "char \<Rightarrow> string \<Rightarrow> string list" where
  "split_on sep [] = [[]]"
| "split_on sep (c # cs) =
     (if c = sep then [] # split_on sep cs
      else (case split_on sep cs of [] \<Rightarrow> [[c]] | p # ps \<Rightarrow> (c # p) # ps))"

text \<open>
  \<open>int(s)\<close>: the whitespace of C's \<open>isspace\<close> (blank, tab, newline, vertical tab, form
  feed, carriage return; not the separators 0x1C to 0x1F that \<open>str.strip\<close> drops) is
  skipped on both sides, one sign is allowed, the digits may be grouped by single
  underscores, and more than 4300 digits are refused (\<open>sys.int_max_str_digits\<close>).
\<close>

definition is_c_space :: "char \<Rightarrow> bool" where
  "is_c_space c = (c \<in> set [CHR '' '', CHR 0x09, CHR 0x0A, CHR 0x0B, CHR 0x0C, CHR 0x0D])"

definition c_strip :: "string \<Rightarrow> string" where
  "c_strip s = rev (dropWhile is_c_space (rev (dropWhile is_c_space s)))"

definition digit_value :: "char \<Rightarrow> int" where
  "digit_value c = int (of_char c) - 48"

definition digits_value :: "string \<Rightarrow> int" where
  "digits_value ds = foldl (\<lambda>acc c. 10 * acc + digit_value c) 0 ds"

fun int_body_ok :: "string \<Rightarrow> bool" where
  "int_body_ok [] = False"
| "int_body_ok [c] = is_digit c"
| "int_body_ok (c # d # r) =
     (is_digit c \<and> (if d = CHR ''_'' then int_body_ok r else int_body_ok (d # r)))"

definition int_max_str_digits :: nat where
  "int_max_str_digits = 4300"

definition py_int :: "string \<Rightarrow> exn + int" where
  "py_int s =
     (let t = c_strip s;
          neg = (t \<noteq> [] \<and> hd t = CHR ''-'');
          body = (if t \<noteq> [] \<and> (hd t = CHR ''-'' \<or> hd t = CHR ''+'') then tl t else t);
          ds = filter is_digit body
      in if int_body_ok body \<and> length ds \<le> int_max_str_digits
         then Inr (if neg then - digits_value ds else digits_value ds)
         else Inl ValueError)"

text \<open>Decimal output: \<open>str(n)\<close> and the format \<open>{n:0wd}\<close>.\<close>

definition digit_char :: "nat \<Rightarrow> char" where
  "digit_char n = ''0123456789'' ! n"

function str_nat :: "nat \<Rightarrow> string" where
  "str_nat n = (if n < 10 then [digit_char n] else str_nat (n div 10) @ [digit_char (n mod 10)])"
  by pat_completeness auto
termination
  by (relation "measure id") auto

declare str_nat.simps [simp del]

definition str_int :: "int \<Rightarrow> string" where
  "str_int i = (if i < 0 then CHR ''-'' # str_nat (nat (- i)) else str_nat (nat i))"

definition zfill :: "nat \<Rightarrow> int \<Rightarrow> string" where
  "zfill w i =
     (if i < 0 then CHR ''-'' # replicate (w - 1 - length (str_nat (nat (- i)))) CHR ''0''
                       @ str_nat (nat (- i))
      else replicate (w - length (str_nat (nat i))) CHR ''0'' @ str_nat (nat i))"

subsection \<open>Dates\<close>

text \<open>
  A naive \<open>datetime\<close> object with the fields Python gives it. \<open>datetime_new\<close> is the
  constructor with its range checks; objects are compared field by field, as tuples.
\<close>

record datetime =
  year :: int
  month :: int
  day :: int
  hour :: int
  minute :: int
  second :: int
  microsecond :: int

definition is_leap :: "int \<Rightarrow> bool" where
  "is_leap y = (y mod 4 = 0 \<and> (y mod 100 \<noteq> 0 \<or> y mod 400 = 0))"

definition days_in_month :: "int \<Rightarrow> int \<Rightarrow> int" where
  "days_in_month y m =
     (if m = 2 then (if is_leap y then 29 else 28)
      else if m = 4 \<or> m = 6 \<or> m = 9 \<or> m = 11 then 30 else 31)"

definition MINYEAR :: int where "MINYEAR = 1"
definition MAXYEAR :: int where "MAXYEAR = 9999"
definition MAXORDINAL :: int where "MAXORDINAL = 3652059"

definition datetime_new :: "int \<Rightarrow> int \<Rightarrow> int \<Rightarrow> int \<Rightarrow> int \<Rightarrow> int \<Rightarrow> exn + datetime" where
  "datetime_new y m d h mi s =
     (if MINYEAR \<le> y \<and> y \<le> MAXYEAR \<and> 1 \<le> m \<and> m \<le> 12 \<and> 1 \<le> d \<and> d \<le> days_in_month y m
         \<and> 0 \<le> h \<and> h \<le> 23 \<and> 0 \<le> mi \<and> mi \<le> 59 \<and> 0 \<le> s \<and> s \<le> 59
      then Inr \<lparr>year = y, month = m, day = d, hour = h, minute = mi, second = s, microsecond = 0\<rparr>
      else Inl ValueError)"

definition dt_fields :: "datetime \<Rightarrow> int list" where
  "dt_fields d = [year d, month d, day d, hour d, minute d, second d, microsecond d]"

definition dt_ge :: "datetime \<Rightarrow> datetime \<Rightarrow> bool" where
  "dt_ge a b = (dt_fields b \<le> dt_fields a)"

text \<open>Proleptic Gregorian ordinals: 0001-01-01 is day 1.\<close>

definition days_before_year :: "int \<Rightarrow> int" where
  "days_before_year y = (y - 1) * 365 + (y - 1) div 4 - (y - 1) div 100 + (y - 1) div 400"

definition days_before_month :: "int \<Rightarrow> int \<Rightarrow> int" where
  "days_before_month y m =
     [0, 31, 59, 90, 120, 151, 181, 212, 243, 273, 304, 334] ! nat (m - 1)
       + (if m > 2 \<and> is_leap y then 1 else 0)"

definition ymd2ord :: "int \<Rightarrow> int \<Rightarrow> int \<Rightarrow> int" where
  "ymd2ord y m d = days_before_year y + days_before_month y m + d"

definition toordinal :: "datetime \<Rightarrow> int" where
  "toordinal d = ymd2ord (year d) (month d) (day d)"

text \<open>
  \<open>_ord2ymd\<close>, in two steps: \<open>month_day\<close> turns the day of the year (counted from 0)
  into month and day, from the estimate \<open>(n + 50) >> 5\<close> corrected by the table of days
  before each month; \<open>ord2ymd\<close> finds the year from the 400-, 100-, 4- and 1-year cycles.
\<close>

definition month_day :: "bool \<Rightarrow> int \<Rightarrow> int \<times> int" where
  "month_day leapyear n =
     (let m = (n + 50) div 32;
          preceding = [0, 31, 59, 90, 120, 151, 181, 212, 243, 273, 304, 334] ! nat (m - 1)
                        + (if m > 2 \<and> leapyear then 1 else 0)
      in if preceding > n
         then (m - 1,
               n - (preceding - ([31, 28, 31, 30, 31, 30, 31, 31, 30, 31, 30, 31] ! nat (m - 2)
                                  + (if m - 1 = 2 \<and> leapyear then 1 else 0))) + 1)
         else (m, n - preceding + 1))"

definition ord2ymd :: "int \<Rightarrow> int \<times> int \<times> int" where
  "ord2ymd n0 =
     (let n = n0 - 1;
          n400 = n div 146097; n = n mod 146097;
          n100 = n div 36524; n = n mod 36524;
          n4 = n div 1461; n = n mod 1461;
          n1 = n div 365; n = n mod 365;
          y = n400 * 400 + 1 + n100 * 100 + n4 * 4 + n1
      in if n1 = 4 \<or> n100 = 4 then (y - 1, 12, 31)
         else (case month_day (n1 = 3 \<and> (n4 \<noteq> 24 \<or> n100 = 3)) n of
                 (m, d) \<Rightarrow> (y, m, d)))"

text \<open>
  \<open>d + timedelta(days=k)\<close> and \<open>d - timedelta(days=k)\<close>: the clock fields stay, the date
  moves by \<open>k\<close> days, and a result outside 0001-01-01 .. 9999-12-31 raises OverflowError.
\<close>

definition add_days :: "datetime \<Rightarrow> int \<Rightarrow> exn + datetime" where
  "add_days d k =
     (let n = toordinal d + k
      in if 0 < n \<and> n \<le> MAXORDINAL
         then (case ord2ymd n of (y, m, dd) \<Rightarrow> Inr (d\<lparr>year := y, month := m, day := dd\<rparr>))
         else Inl OverflowError)"

definition weekday :: "datetime \<Rightarrow> int" where
  "weekday d = (toordinal d + 6) mod 7"

definition isoweek1monday :: "int \<Rightarrow> int" where
  "isoweek1monday y =
     (let firstday = ymd2ord y 1 1;
          firstweekday = (firstday + 6) mod 7;
          week1monday = firstday - firstweekday
      in if firstweekday > 3 then week1monday + 7 else week1monday)"

definition isocalendar :: "datetime \<Rightarrow> int \<times> int \<times> int" where
  "isocalendar d =
     (let y = year d;
          week1monday = isoweek1monday y;
          today = ymd2ord (year d) (month d) (day d);
          week = (today - week1monday) div 7;
          wd = (today - week1monday) mod 7
      in if week < 0
         then (let y1 = y - 1; w1 = isoweek1monday y1
               in (y1, (today - w1) div 7 + 1, (today - w1) mod 7 + 1))
         else if week \<ge> 52 \<and> today \<ge> isoweek1monday (y + 1) then (y + 1, 1, wd + 1)
         else (y, week + 1, wd + 1))"

text \<open>
  \<open>strftime\<close> for the formats the crawler uses. \<open>%Y\<close> is the year as the C library of
  Linux prints it, without padding: four digits from the year 1000 on, fewer below.
\<close>

definition strftime_date :: "datetime \<Rightarrow> string" where
  "strftime_date d = str_int (year d) @ ''-'' @ zfill 2 (month d) @ ''-'' @ zfill 2 (day d)"

definition strftime_time :: "datetime \<Rightarrow> string" where
  "strftime_time d = zfill 2 (hour d) @ '':'' @ zfill 2 (minute d) @ '':'' @ zfill 2 (second d)"

definition strftime_iso :: "datetime \<Rightarrow> string" where
  "strftime_iso d = strftime_date d @ ''T'' @ strftime_time d"

text \<open>
  \<open>datetime.strptime\<close> for \<open>%Y-%m-%d %H:%M:%S\<close> (\<open>sep = expect_space\<close>) and
  \<open>%Y-%m-%dT%H:%M:%S\<close> (\<open>sep = expect_T\<close>). The year is four digits, every other field
  one or two digits (the day may be a space and a digit), a blank of the format stands
  for one or more whitespace characters, letters match in either case, nothing may
  follow the seconds, and the fields must pass the constructor's range checks.
\<close>

definition digits12 :: "string \<Rightarrow> (int \<times> string) option" where
  "digits12 s =
     (let ds = takeWhile is_digit s
      in if length ds = 1 \<or> length ds = 2 then Some (digits_value ds, dropWhile is_digit s)
         else None)"

definition digits4 :: "string \<Rightarrow> (int \<times> string) option" where
  "digits4 s =
     (if 4 \<le> length s \<and> list_all is_digit (take 4 s) then Some (digits_value (take 4 s), drop 4 s)
      else None)"

definition day_field :: "string \<Rightarrow> (int \<times> string) option" where
  "day_field s =
     (case s of
        c # d # r \<Rightarrow>
          (if c = CHR '' '' then (if d \<in> set ''123456789'' then Some (digit_value d, r) else None)
           else digits12 s)
      | _ \<Rightarrow> digits12 s)"

definition expect :: "char \<Rightarrow> string \<Rightarrow> string option" where
  "expect c s = (case s of [] \<Rightarrow> None | x # r \<Rightarrow> if x = c then Some r else None)"

definition expect_space :: "string \<Rightarrow> string option" where
  "expect_space s =
     (case s of [] \<Rightarrow> None | x # r \<Rightarrow> if is_space x then Some (dropWhile is_space r) else None)"

definition expect_T :: "string \<Rightarrow> string option" where
  "expect_T s =
     (case s of [] \<Rightarrow> None | x # r \<Rightarrow> if x = CHR ''T'' \<or> x = CHR ''t'' then Some r else None)"

definition strptime_fields ::
    "(string \<Rightarrow> string option) \<Rightarrow> string \<Rightarrow> (int \<times> int \<times> int \<times> int \<times> int \<times> int) option" where
  "strptime_fields sep s =
     Option.bind (digits4 s) (\<lambda>(y, r1).
     Option.bind (expect CHR ''-'' r1) (\<lambda>r2.
     Option.bind (digits12 r2) (\<lambda>(m, r3).
     Option.bind (expect CHR ''-'' r3) (\<lambda>r4.
     Option.bind (day_field r4) (\<lambda>(d, r5).
     Option.bind (sep r5) (\<lambda>r6.
     Option.bind (digits12 r6) (\<lambda>(h, r7).
     Option.bind (expect CHR '':'' r7) (\<lambda>r8.
     Option.bind (digits12 r8) (\<lambda>(mi, r9).
     Option.bind (expect CHR '':'' r9) (\<lambda>r10.
     Option.bind (digits12 r10) (\<lambda>(sec, r11).
     if r11 = [] then Some (y, m, d, h, mi, sec) else None)))))))))))"

definition strptime :: "(string \<Rightarrow> string option) \<Rightarrow> string \<Rightarrow> exn + datetime" where
  "strptime sep s =
     (case strptime_fields sep s of
        None \<Rightarrow> Inl ValueError
      | Some (y, m, d, h, mi, sec) \<Rightarrow> datetime_new y m d h mi sec)"

section \<open>The crawler\<close>

subsection \<open>Configuration\<close>

definition GALL_ID :: string where
  "GALL_ID = ''thesingularity''"

definition GALL_NAME :: string where
  "GALL_NAME = [CHR 0xED, CHR 0x8A, CHR 0xB9, CHR 0xEC, CHR 0x9D, CHR 0xB4, CHR 0xEC, CHR 0xA0,
                CHR 0x90, CHR 0xEC, CHR 0x9D, CHR 0xB4, CHR 0x20, CHR 0xEC, CHR 0x98, CHR 0xA8,
                CHR 0xEB, CHR 0x8B, CHR 0xA4]"

definition DAYS_LIMIT :: int where
  "DAYS_LIMIT = 28"

text \<open>The marker of a semi-anonymous nickname: U+3147 twice, in UTF-8.\<close>

definition semi_anonymous_marker :: string where
  "semi_anonymous_marker = [CHR 0xE3, CHR 0x85, CHR 0x87, CHR 0xE3, CHR 0x85, CHR 0x87]"

subsection \<open>Listing rows\<close>

text \<open>
  A row of the listing (\<open>tr.ub-content\<close>) is what the crawler can read of it: the
  attributes it asks for (\<open>None\<close> when the attribute is absent) and the cells it selects
  (\<open>None\<close> when the selector finds nothing), each cell with its stripped text.
  \<open>title_text\<close> is the text of the title link once the comment counter
  (\<open>.reply_numbox\<close>) has been taken out of it.
\<close>

record title_tag =
  reply_numbox :: "string option"
  title_text :: string
  href :: "string option"

record date_tag =
  date_title :: "string option"
  date_text :: string

record writer_tag =
  data_nick :: "string option"
  data_ip :: "string option"
  data_uid :: "string option"
  writer_text :: string

record row =
  data_type :: "string option"
  data_no :: "string option"
  gall_tit_a :: "title_tag option"
  gall_num :: "string option"
  gall_date :: "date_tag option"
  gall_writer :: "writer_tag option"
  gall_count :: "string option"
  gall_recommend :: "string option"

text \<open>\<open>tag.get(name, default)\<close>, and the truth value of \<open>tag.get(name)\<close>.\<close>

definition get_attr :: "string option \<Rightarrow> string \<Rightarrow> string" where
  "get_attr a dflt = (case a of None \<Rightarrow> dflt | Some v \<Rightarrow> v)"

definition truthy :: "string option \<Rightarrow> bool" where
  "truthy a = (case a of None \<Rightarrow> False | Some v \<Rightarrow> v \<noteq> [])"

subsection \<open>Post records\<close>

record post =
  post_id :: string
  title :: string
  author :: string
  author_ip :: string
  author_type :: string
  date :: string
  time :: string
  datetime :: string
  views :: int
  likes :: int
  comments :: int
  url :: string

text \<open>
  During the crawl a record also carries \<open>_datetime_obj\<close>; the key is deleted before the
  records are returned.
\<close>

record post_data = post +
  datetime_obj :: datetime

subsection \<open>parse_date\<close>

text \<open>The three \<open>try\<close> blocks of \<open>parse_date\<close>, with the exception each can raise.\<close>

definition parse_title :: "string \<Rightarrow> exn + datetime" where
  "parse_title date_str = strptime expect_space date_str"

definition parse_hhmm :: "string \<Rightarrow> datetime \<Rightarrow> exn + datetime" where
  "parse_hhmm dtext today =
     (case map py_int (split_on CHR '':'' dtext) of
        [Inr h, Inr mi] \<Rightarrow> datetime_new (year today) (month today) (day today) h mi 0
      | _ \<Rightarrow> Inl ValueError)"

definition parse_dotted :: "string \<Rightarrow> datetime \<Rightarrow> exn + datetime option" where
  "parse_dotted dtext today =
     (let parts = split_on CHR ''.'' dtext
      in if length parts = 2 then
           (case (py_int (parts ! 0), py_int (parts ! 1)) of
              (Inr m, Inr d) \<Rightarrow> map_sum id Some (datetime_new (year today) m d 0 0 0)
            | _ \<Rightarrow> Inl ValueError)
         else if length parts = 3 then
           (case (py_int (parts ! 0), py_int (parts ! 1), py_int (parts ! 2)) of
              (Inr y, Inr m, Inr d) \<Rightarrow> map_sum id Some (datetime_new (2000 + y) m d 0 0 0)
            | _ \<Rightarrow> Inl ValueError)
         else Inr None)"

definition parse_date :: "date_tag option \<Rightarrow> datetime \<Rightarrow> datetime option" where
  "parse_date date_tag today =
     (case date_tag of
        None \<Rightarrow> None
      | Some tag \<Rightarrow>
          (case (if truthy (date_title tag) then parse_title (the (date_title tag))
                 else Inl ValueError) of
             Inr d \<Rightarrow> Some d
           | Inl _ \<Rightarrow>
               (if CHR '':'' \<in> set (date_text tag) then
                  (case parse_hhmm (date_text tag) today of Inr d \<Rightarrow> Some d | Inl _ \<Rightarrow> None)
                else if CHR ''.'' \<in> set (date_text tag) then
                  (case parse_dotted (date_text tag) today of Inr r \<Rightarrow> r | Inl _ \<Rightarrow> None)
                else None)))"

subsection \<open>extract_post_data\<close>

text \<open>A counter cell: the number it shows, 0 when the cell is missing or not a number.\<close>

definition parse_count :: "string option \<Rightarrow> int" where
  "parse_count cell =
     (case cell of None \<Rightarrow> 0 | Some t \<Rightarrow> (case py_int t of Inl _ \<Rightarrow> 0 | Inr n \<Rightarrow> n))"

text \<open>The writer block: author, author_type and author_ip.\<close>

definition writer_info :: "writer_tag option \<Rightarrow> string \<times> string \<times> string" where
  "writer_info w =
     (case w of
        None \<Rightarrow> ('''', ''unknown'', '''')
      | Some writer_tag \<Rightarrow>
          (let author0 = get_attr (data_nick writer_tag) '''';
               author_ip_v = get_attr (data_ip writer_tag) '''';
               author_v = (if author0 = [] then writer_text writer_tag else author0);
               author_type_v =
                 (if truthy (data_uid writer_tag) then ''member''
                  else if author_ip_v \<noteq> [] then
                    (if startswith author_v semi_anonymous_marker then ''semi_anonymous''
                     else ''ip'')
                  else ''ip'')
           in (author_v, author_type_v, author_ip_v)))"

text \<open>
  The body of the \<open>try\<close> block: \<open>Inr None\<close> is an explicit \<open>return None\<close>, \<open>Inl e\<close> an
  exception (the link without \<open>href\<close> raises KeyError). \<open>extract_post_data\<close> adds the
  handler \<open>except Exception: return None\<close>.
\<close>

definition extract_body :: "row \<Rightarrow> datetime \<Rightarrow> exn + post_data option" where
  "extract_body row today =
     (if contains ''icon_notice'' (get_attr (data_type row) '''') then Inr None
      else
        (case gall_tit_a row of
           None \<Rightarrow> Inr None
         | Some title_tag \<Rightarrow>
             (let comments_v =
                    (case reply_numbox title_tag of
                       None \<Rightarrow> 0
                     | Some t \<Rightarrow> (case py_int (strip_chars ''[]'' t) of Inl _ \<Rightarrow> 0 | Inr n \<Rightarrow> n))
              in (case href title_tag of
                   None \<Rightarrow> Inl KeyError
                 | Some h \<Rightarrow>
                     (let num_text = get_attr (gall_num row) '''';
                          post_id0 = get_attr (data_no row) ''''
                      in if post_id0 = [] \<and> \<not> isdigit num_text then Inr None
                         else
                           (case parse_date (gall_date row) today of
                              None \<Rightarrow> Inr None
                            | Some post_datetime \<Rightarrow>
                                (case writer_info (gall_writer row) of
                                   (author_v, author_type_v, author_ip_v) \<Rightarrow>
                                     Inr (Some
                                       \<lparr>post_id = (if post_id0 = [] then num_text else post_id0),
                                        title = title_text title_tag,
                                        author = author_v,
                                        author_ip = author_ip_v,
                                        author_type = author_type_v,
                                        date = strftime_date post_datetime,
                                        time = strftime_time post_datetime,
                                        datetime = strftime_iso post_datetime,
                                        views = parse_count (gall_count row),
                                        likes = parse_count (gall_recommend row),
                                        comments = comments_v,
                                        url = ''https://gall.dcinside.com'' @ h,
                                        datetime_obj = post_datetime\<rparr>))))))))"

definition extract_post_data :: "row \<Rightarrow> datetime \<Rightarrow> post_data option" where
  "extract_post_data row today =
     (case extract_body row today of Inl e \<Rightarrow> None | Inr r \<Rightarrow> r)"

subsection \<open>The archive\<close>

text \<open>
  A week file is the JSON object \<open>save_week_data\<close> writes. The data directory is a list
  of (week id, file): \<open>load_week_data\<close> reads the file of a week, \<open>save_week_data\<close>
  overwrites it or creates it.
\<close>

record week_file =
  gallery_id :: string
  gallery_name :: string
  week :: string
  week_start :: string
  week_end :: string
  last_updated :: string
  posts :: "post list"
  total_posts :: nat

type_synonym data_dir = "(string \<times> week_file) list"

definition load_week_data :: "data_dir \<Rightarrow> string \<Rightarrow> week_file option" where
  "load_week_data fs wid = map_of fs wid"

fun save_week_data :: "string \<Rightarrow> week_file \<Rightarrow> data_dir \<Rightarrow> data_dir" where
  "save_week_data wid data [] = [(wid, data)]"
| "save_week_data wid data ((k, v) # fs) =
     (if k = wid then (wid, data) # fs else (k, v) # save_week_data wid data fs)"

definition all_archive_ids :: "data_dir \<Rightarrow> string list" where
  "all_archive_ids fs = concat (map (\<lambda>(k, data). map post_id (posts data)) fs)"

definition load_all_existing_ids :: "data_dir \<Rightarrow> string set" where
  "load_all_existing_ids fs = set (all_archive_ids fs)"

subsection \<open>crawl_posts\<close>

text \<open>
  The answer of the site for a page: the request fails, or the page parses into its
  rows (\<open>tr.ub-content\<close>, possibly none).
\<close>

datatype response = RequestException | Page "row list"

record crawl_state =
  all_posts :: "post_data list"
  new_posts_count :: nat
  consecutive_dup_count :: nat

text \<open>
  The \<open>for row in rows\<close> loop. The flag returned is \<open>stop_crawling\<close>: the loop was left
  by one of its two \<open>break\<close>s.
\<close>

fun process_rows ::
    "string set \<Rightarrow> datetime \<Rightarrow> datetime \<Rightarrow> row list \<Rightarrow> crawl_state \<Rightarrow> bool \<times> crawl_state" where
  "process_rows existing_ids today cutoff_date [] st = (False, st)"
| "process_rows existing_ids today cutoff_date (r # rows) st =
     (case extract_post_data r today of
        None \<Rightarrow> process_rows existing_ids today cutoff_date rows st
      | Some pd \<Rightarrow>
          (if post_id pd \<in> existing_ids then
             (if consecutive_dup_count st + 1 \<ge> 5
              then (True, st\<lparr>consecutive_dup_count := consecutive_dup_count st + 1\<rparr>)
              else process_rows existing_ids today cutoff_date rows
                     (st\<lparr>consecutive_dup_count := consecutive_dup_count st + 1\<rparr>))
           else
             (if dt_ge (datetime_obj pd) cutoff_date
              then process_rows existing_ids today cutoff_date rows
                     (st\<lparr>consecutive_dup_count := 0,
                         all_posts := all_posts st @ [pd],
                         new_posts_count := new_posts_count st + 1\<rparr>)
              else (True, st\<lparr>consecutive_dup_count := 0\<rparr>))))"

text \<open>
  The \<open>while not stop_crawling\<close> loop over the pages. It has no bound of its own: a site
  that keeps serving new rows keeps it running, so the loop is a partial function and
  \<open>None\<close> stands for a crawl that never returns.
\<close>

partial_function (option) crawl_loop ::
    "(nat \<Rightarrow> response) \<Rightarrow> string set \<Rightarrow> datetime \<Rightarrow> datetime \<Rightarrow> nat \<Rightarrow> crawl_state
       \<Rightarrow> crawl_state option" where
  "crawl_loop fetch existing_ids today cutoff_date page st =
     (case fetch page of
        RequestException \<Rightarrow> Some st
      | Page rows \<Rightarrow>
          (if rows = [] then Some st
           else if fst (process_rows existing_ids today cutoff_date rows st)
           then Some (snd (process_rows existing_ids today cutoff_date rows st))
           else crawl_loop fetch existing_ids today cutoff_date (page + 1)
                  (snd (process_rows existing_ids today cutoff_date rows st))))"

declare crawl_loop.simps [code]

definition initial_state :: crawl_state where
  "initial_state = \<lparr>all_posts = [], new_posts_count = 0, consecutive_dup_count = 0\<rparr>"

text \<open>
  \<open>crawl_posts\<close>: \<open>today\<close> is the clock's answer, \<open>fetch\<close> the site. \<open>None\<close>: the crawl
  does not return; \<open>Some (Inl e)\<close>: it raises \<open>e\<close>; \<open>Some (Inr ps)\<close>: it returns \<open>ps\<close>.
\<close>

definition crawl_posts :: "data_dir \<Rightarrow> datetime \<Rightarrow> (nat \<Rightarrow> response) \<Rightarrow> (exn + post list) option" where
  "crawl_posts fs today fetch =
     (case add_days today (- DAYS_LIMIT) of
        Inl e \<Rightarrow> Some (Inl e)
      | Inr cutoff_date \<Rightarrow>
          map_option (\<lambda>st. Inr (map post.truncate (all_posts st)))
            (crawl_loop fetch (load_all_existing_ids fs) today cutoff_date 1 initial_state))"

subsection \<open>get_week_info and organize_by_week\<close>

record week_info =
  week_id :: string
  wi_year :: int
  wi_week :: int
  wi_week_start :: string
  wi_week_end :: string

definition get_week_info :: "datetime \<Rightarrow> exn + week_info" where
  "get_week_info d =
     (case isocalendar d of
        (y, w, wd) \<Rightarrow>
          (case add_days d (- weekday d) of
             Inl e \<Rightarrow> Inl e
           | Inr ws \<Rightarrow>
               (case add_days ws 6 of
                  Inl e \<Rightarrow> Inl e
                | Inr we \<Rightarrow>
                    Inr \<lparr>week_id = str_int y @ ''_W'' @ zfill 2 w,
                         wi_year = y,
                         wi_week = w,
                         wi_week_start = strftime_date ws,
                         wi_week_end = strftime_date we\<rparr>)))"

text \<open>
  The dictionary \<open>weeks\<close> keeps its keys in the order they were first stored, and
  \<open>merge_and_save\<close> walks it in that order: a list of (week id, (info, posts)).
\<close>

type_synonym weeks = "(string \<times> week_info \<times> post list) list"

definition add_to_week :: "week_info \<Rightarrow> post \<Rightarrow> weeks \<Rightarrow> weeks" where
  "add_to_week wi p ws =
     (let ws1 = (if week_id wi \<in> set (map fst ws) then ws else ws @ [(week_id wi, (wi, []))])
      in map (\<lambda>(k, (i, ps)). if k = week_id wi then (k, (i, ps @ [p])) else (k, (i, ps))) ws1)"

fun organize_loop :: "post list \<Rightarrow> weeks \<Rightarrow> exn + weeks" where
  "organize_loop [] ws = Inr ws"
| "organize_loop (p # ps) ws =
     (case strptime expect_T (datetime p) of
        Inl e \<Rightarrow> Inl e
      | Inr post_date \<Rightarrow>
          (case get_week_info post_date of
             Inl e \<Rightarrow> Inl e
           | Inr wi \<Rightarrow> organize_loop ps (add_to_week wi p ws)))"

definition organize_by_week :: "post list \<Rightarrow> exn + weeks" where
  "organize_by_week ps = organize_loop ps []"

subsection \<open>merge_and_save\<close>

text \<open>\<open>xs.sort(key=k, reverse=True)\<close>: a stable sort of the reversed list, reversed again.\<close>

definition sort_reverse :: "('a \<Rightarrow> 'k::linorder) \<Rightarrow> 'a list \<Rightarrow> 'a list" where
  "sort_reverse k xs = rev (sort_key k (rev xs))"

definition create_week_structure :: "datetime \<Rightarrow> week_info \<Rightarrow> week_file" where
  "create_week_structure now wi =
     \<lparr>gallery_id = GALL_ID,
      gallery_name = GALL_NAME,
      week = week_id wi,
      week_start = wi_week_start wi,
      week_end = wi_week_end wi,
      last_updated = strftime_iso now @ ''+09:00'',
      posts = [],
      total_posts = 0\<rparr>"

text \<open>The list \<open>all_posts\<close> of one week before it is sorted.\<close>

definition merged_posts :: "week_file option \<Rightarrow> post list \<Rightarrow> post list" where
  "merged_posts existing_data new_posts =
     (case existing_data of
        Some existing \<Rightarrow>
          posts existing
            @ filter (\<lambda>p. post_id p \<notin> set (map post_id (posts existing))) new_posts
      | None \<Rightarrow> new_posts)"

text \<open>
  The body of the loop of \<open>merge_and_save\<close> for one week (the specification's
  merge_and_persist); \<open>now\<close> is the clock's answer in \<open>create_week_structure\<close>.
\<close>

definition merge_and_persist :: "datetime \<Rightarrow> string \<Rightarrow> week_info \<Rightarrow> post list \<Rightarrow> data_dir \<Rightarrow> data_dir" where
  "merge_and_persist now wid wi new_posts fs =
     (let all_posts_v = sort_reverse datetime (merged_posts (load_week_data fs wid) new_posts)
      in save_week_data wid
           ((create_week_structure now wi)\<lparr>posts := all_posts_v, total_posts := length all_posts_v\<rparr>)
           fs)"

text \<open>The loop; \<open>clock i\<close> is the time read in its \<open>i\<close>-th round.\<close>

fun merge_and_save :: "(nat \<Rightarrow> datetime) \<Rightarrow> nat \<Rightarrow> weeks \<Rightarrow> data_dir \<Rightarrow> data_dir" where
  "merge_and_save clock i [] fs = fs"
| "merge_and_save clock i ((wid, (wi, new_posts)) # rest) fs =
     merge_and_save clock (i + 1) rest (merge_and_persist (clock i) wid wi new_posts fs)"

subsection \<open>main\<close>

text \<open>
  One run: \<open>today\<close> is the time the crawl starts, \<open>clock\<close> the times of the writes.
  \<open>None\<close>: the run does not return; \<open>Some (Inl e)\<close>: it raises \<open>e\<close> and the archive is as
  it was; \<open>Some (Inr fs')\<close>: it ends with the archive \<open>fs'\<close>.
\<close>

definition main :: "datetime \<Rightarrow> (nat \<Rightarrow> datetime) \<Rightarrow> (nat \<Rightarrow> response) \<Rightarrow> data_dir \<Rightarrow> (exn + data_dir) option" where
  "main today clock fetch fs =
     (case crawl_posts fs today fetch of
        None \<Rightarrow> None
      | Some (Inl e) \<Rightarrow> Some (Inl e)
      | Some (Inr ps) \<Rightarrow>
          (if ps = [] then Some (Inr fs)
           else (case organize_by_week ps of
                   Inl e \<Rightarrow> Some (Inl e)
                 | Inr ws \<Rightarrow> Some (Inr (merge_and_save clock 0 ws fs)))))"

section \<open>The date rules as the specification words them\<close>

text \<open>
  The four rules of the Date Normalizer, each written on its own from the
  specification: the full timestamp on the cell, \<open>HH:MM\<close> on the reference date, \<open>MM.DD\<close>
  in the reference year, and \<open>YY.MM.DD\<close> with the year 2000 + YY. Each yields \<open>None\<close>
  when its text does not parse.
\<close>

definition sum_to_option :: "exn + 'a \<Rightarrow> 'a option" where
  "sum_to_option r = (case r of Inl e \<Rightarrow> None | Inr v \<Rightarrow> Some v)"

definition rule_full_timestamp :: "date_tag \<Rightarrow> datetime option" where
  "rule_full_timestamp tag =
     (case date_title tag of
        None \<Rightarrow> None
      | Some s \<Rightarrow> if s = [] then None else sum_to_option (strptime expect_space s))"

definition rule_hhmm :: "string \<Rightarrow> datetime \<Rightarrow> datetime option" where
  "rule_hhmm dtext today =
     (case split_on CHR '':'' dtext of
        [a, b] \<Rightarrow>
          (case (py_int a, py_int b) of
             (Inr h, Inr mi) \<Rightarrow> sum_to_option (datetime_new (year today) (month today) (day today) h mi 0)
           | _ \<Rightarrow> None)
      | _ \<Rightarrow> None)"

definition rule_mmdd :: "string \<Rightarrow> datetime \<Rightarrow> datetime option" where
  "rule_mmdd dtext today =
     (case split_on CHR ''.'' dtext of
        [a, b] \<Rightarrow>
          (case (py_int a, py_int b) of
             (Inr m, Inr d) \<Rightarrow> sum_to_option (datetime_new (year today) m d 0 0 0)
           | _ \<Rightarrow> None)
      | _ \<Rightarrow> None)"

definition rule_yymmdd :: "string \<Rightarrow> datetime option" where
  "rule_yymmdd dtext =
     (case split_on CHR ''.'' dtext of
        [a, b, c] \<Rightarrow>
          (case (py_int a, py_int b, py_int c) of
             (Inr y, Inr m, Inr d) \<Rightarrow> sum_to_option (datetime_new (2000 + y) m d 0 0 0)
           | _ \<Rightarrow> None)
      | _ \<Rightarrow> None)"

section \<open>Sample inputs\<close>

text \<open>A reference time, and listing rows that differ in their id, date cell and writer cell.\<close>

definition sample_today :: datetime where
  "sample_today =
     \<lparr>year = 2024, month = 3, day = 11, hour = 9, minute = 0, second = 0, microsecond = 123456\<rparr>"

definition sample_writer :: writer_tag where
  "sample_writer =
     \<lparr>data_nick = Some ''kim'', data_ip = Some ''1.2'', data_uid = Some '''',
      writer_text = ''kim(1.2)''\<rparr>"

definition sample_row :: "string \<Rightarrow> date_tag \<Rightarrow> writer_tag option \<Rightarrow> row" where
  "sample_row no cell w =
     \<lparr>data_type = Some ''icon_txt'',
      data_no = Some no,
      gall_tit_a = Some \<lparr>reply_numbox = Some ''[3]'', title_text = ''hello'', href = Some ''/v''\<rparr>,
      gall_num = Some no,
      gall_date = Some cell,
      gall_writer = w,
      gall_count = Some ''10'',
      gall_recommend = Some ''-''\<rparr>"

definition sample_cell :: date_tag where
  "sample_cell = \<lparr>date_title = None, date_text = ''14:05''\<rparr>"

definition sample_post :: "string \<Rightarrow> string \<Rightarrow> post" where
  "sample_post no stamp =
     \<lparr>post_id = no, title = ''hello'', author = ''kim'', author_ip = ''1.2'', author_type = ''ip'',
      date = take 10 stamp, time = drop 11 stamp, datetime = stamp,
      views = 10, likes = 0, comments = 3, url = ''https://gall.dcinside.com/v''\<rparr>"

definition sample_week_file :: "post list \<Rightarrow> week_file" where
  "sample_week_file ps =
     \<lparr>gallery_id = GALL_ID, gallery_name = GALL_NAME, week = ''2024_W10'',
      week_start = ''2024-03-04'', week_end = ''2024-03-10'',
      last_updated = ''2024-03-10T23:00:00+09:00'', posts = ps, total_posts = length ps\<rparr>"

definition known_row :: "string \<Rightarrow> row" where
  "known_row no = sample_row no sample_cell (Some sample_writer)"

text \<open>
  A site with one page of six rows, ids 6 to 11, an archive that holds 6 to 10, and two
  cut-off dates: 28 days before the reference time, and the day after it.
\<close>

definition sample_fetch :: "nat \<Rightarrow> response" where
  "sample_fetch p =
     (if p = 1
      then Page (map known_row [''6'', ''7'', ''8'', ''9'', ''10'', ''11''])
      else RequestException)"

definition sample_archive :: data_dir where
  "sample_archive =
     [(''2024_W10'',
       sample_week_file
         (map (\<lambda>no. sample_post no ''2024-03-10T12:00:00'') [''6'', ''7'', ''8'', ''9'', ''10'']))]"




definition sample_cutoff :: datetime where
  "sample_cutoff =
     \<lparr>year = 2024, month = 2, day = 12, hour = 9, minute = 0, second = 0, microsecond = 123456\<rparr>"

definition late_cutoff :: datetime where
  "late_cutoff =
     \<lparr>year = 2024, month = 3, day = 12, hour = 0, minute = 0, second = 0, microsecond = 0\<rparr>"

section \<open>The records a crawl meets\<close>

text \<open>
  The rows of a page, and the records \<open>extract_post_data\<close> yields from the rows of the
  given pages, in the order the crawler meets them.
\<close>

definition page_rows :: "response \<Rightarrow> row list" where
  "page_rows resp = (case resp of RequestException \<Rightarrow> [] | Page rows \<Rightarrow> rows)"

definition extracted_records :: "(nat \<Rightarrow> response) \<Rightarrow> datetime \<Rightarrow> nat list \<Rightarrow> post_data list" where
  "extracted_records fetch today pages =
     List.map_filter (\<lambda>r. extract_post_data r today)
       (concat (map (\<lambda>p. page_rows (fetch p)) pages))"

text \<open>The record \<open>extract_post_data\<close> yields for a sample row with the sample cell.\<close>

definition sample_post_data :: "string \<Rightarrow> post_data" where
  "sample_post_data no =
     \<lparr>post_id = no, title = ''hello'', author = ''kim'', author_ip = ''1.2'', author_type = ''ip'',
      date = ''2024-03-11'', time = ''14:05:00'', datetime = ''2024-03-11T14:05:00'',
      views = 10, likes = 0, comments = 3, url = ''https://gall.dcinside.com/v'',
      datetime_obj = \<lparr>year = 2024, month = 3, day = 11, hour = 14, minute = 5, second = 0,
                       microsecond = 0\<rparr>\<rparr>"


section \<open>ISO weeks\<close>

text \<open>
  The invariant of a \<open>datetime\<close> object: the ranges its constructor checks.
\<close>

definition valid_datetime :: "datetime \<Rightarrow> bool" where
  "valid_datetime d =
     (MINYEAR \<le> year d \<and> year d \<le> MAXYEAR \<and> 1 \<le> month d \<and> month d \<le> 12 \<and>
      1 \<le> day d \<and> day d \<le> days_in_month (year d) (month d) \<and>
      0 \<le> hour d \<and> hour d \<le> 23 \<and> 0 \<le> minute d \<and> minute d \<le> 59 \<and>
      0 \<le> second d \<and> second d \<le> 59 \<and> 0 \<le> microsecond d \<and> microsecond d \<le> 999999)"

text \<open>
  The day with ordinal \<open>n\<close> lies in ISO year \<open>Y\<close>, week \<open>W\<close>, on weekday \<open>wd\<close> (Monday is
  1): ISO year \<open>Y\<close> runs from the Monday of its week 1 to the day before the Monday of
  week 1 of the next year, and its weeks are counted from that Monday.
\<close>

definition iso_week_of :: "int \<Rightarrow> int \<times> int \<times> int \<Rightarrow> bool" where
  "iso_week_of n ywd =
     (case ywd of (Y, W, wd) \<Rightarrow>
        isoweek1monday Y \<le> n \<and> n < isoweek1monday (Y + 1) \<and>
        W = (n - isoweek1monday Y) div 7 + 1 \<and> wd = (n + 6) mod 7 + 1)"

text \<open>
  The week information of ISO week \<open>W\<close> of ISO year \<open>Y\<close>, from the definition of ISO weeks:
  the week starts \<open>7 * (W - 1)\<close> days after the Monday of week 1 and ends six days later.
\<close>

definition date_string :: "int \<times> int \<times> int \<Rightarrow> string" where
  "date_string ymd = (case ymd of (y, m, d) \<Rightarrow> str_int y @ ''-'' @ zfill 2 m @ ''-'' @ zfill 2 d)"

definition iso_week_info :: "int \<Rightarrow> int \<Rightarrow> week_info" where
  "iso_week_info Y W =
     \<lparr>week_id = str_int Y @ ''_W'' @ zfill 2 W,
      wi_year = Y,
      wi_week = W,
      wi_week_start = date_string (ord2ymd (isoweek1monday Y + 7 * (W - 1))),
      wi_week_end = date_string (ord2ymd (isoweek1monday Y + 7 * (W - 1) + 6))\<rparr>"

section \<open>Partitions and runs\<close>

text \<open>The records of a partition, week after week.\<close>

definition week_posts :: "weeks \<Rightarrow> post list" where
  "week_posts ws = concat (map (\<lambda>(k, wi, g). g) ws)"

text \<open>
  An entry of a partition is sound when its key is the week id of its information and
  every record in it parses to a timestamp whose own week information is the entry's.
\<close>

definition week_entry_ok :: "string \<times> week_info \<times> post list \<Rightarrow> bool" where
  "week_entry_ok entry =
     (case entry of (k, wi, g) \<Rightarrow>
        week_id wi = k \<and>
        (\<exists>d. valid_datetime d \<and> get_week_info d = Inr wi) \<and>
        (\<forall>p \<in> set g. \<exists>d. strptime expect_T (datetime p) = Inr d \<and> get_week_info d = Inr wi))"

text \<open>
  A run is the time it starts, the clock of its writes and the site it meets. A
  sequence of runs works on the archive the run before it left; a run that raises leaves
  the archive as it was, and \<open>None\<close> stands for a run that never returns.
  \<open>collects_distinct\<close> holds when no run of the sequence collects the same id twice.
\<close>

type_synonym run = "datetime \<times> (nat \<Rightarrow> datetime) \<times> (nat \<Rightarrow> response)"

fun run_sequence :: "run list \<Rightarrow> data_dir \<Rightarrow> data_dir option" where
  "run_sequence [] fs = Some fs"
| "run_sequence ((today, clock, fetch) # rs) fs =
     (case main today clock fetch fs of
        None \<Rightarrow> None
      | Some (Inl e) \<Rightarrow> run_sequence rs fs
      | Some (Inr fs') \<Rightarrow> run_sequence rs fs')"

fun collects_distinct :: "run list \<Rightarrow> data_dir \<Rightarrow> bool" where
  "collects_distinct [] fs = True"
| "collects_distinct ((today, clock, fetch) # rs) fs =
     ((case crawl_posts fs today fetch of
         Some (Inr ps) \<Rightarrow> distinct (map post_id ps)
       | _ \<Rightarrow> True) \<and>
      (case main today clock fetch fs of
         None \<Rightarrow> True
       | Some (Inl e) \<Rightarrow> collects_distinct rs fs
       | Some (Inr fs') \<Rightarrow> collects_distinct rs fs'))"

section \<open>Evaluation on concrete inputs\<close>

lemmas str_defs = is_space_def is_c_space_def is_digit_def c_strip_def strip_chars_def startswith_def isdigit_def
  digit_value_def digits_value_def py_int_def int_max_str_digits_def digit_char_def str_int_def zfill_def
  str_nat.simps

lemmas strptime_defs = digits12_def digits4_def day_field_def expect_def expect_space_def expect_T_def
  strptime_fields_def strptime_def

lemmas strftime_defs = strftime_date_def strftime_time_def strftime_iso_def

section \<open>parse_date\<close>

lemma parse_hhmm_rule: "sum_to_option (parse_hhmm dtext today) = rule_hhmm dtext today"
  by (auto simp: parse_hhmm_def rule_hhmm_def sum_to_option_def split: list.splits sum.splits)

lemma parse_dotted_2:
  assumes "length (split_on CHR ''.'' dtext) = 2"
  shows "(case parse_dotted dtext today of Inr r \<Rightarrow> r | Inl _ \<Rightarrow> None) = rule_mmdd dtext today"
proof -
  from assms obtain a b where ab: "split_on CHR ''.'' dtext = [a, b]"
    by (auto simp: length_Suc_conv numeral_2_eq_2)
  show ?thesis
    by (cases "py_int a"; cases "py_int b")
       (simp_all add: parse_dotted_def rule_mmdd_def ab sum_to_option_def split: sum.splits)
qed

lemma parse_dotted_3:
  assumes "length (split_on CHR ''.'' dtext) = 3"
  shows "(case parse_dotted dtext today of Inr r \<Rightarrow> r | Inl _ \<Rightarrow> None) = rule_yymmdd dtext"
proof -
  from assms obtain a b c where abc: "split_on CHR ''.'' dtext = [a, b, c]"
    by (auto simp: length_Suc_conv numeral_3_eq_3)
  show ?thesis
    by (cases "py_int a"; cases "py_int b"; cases "py_int c")
       (simp_all add: parse_dotted_def rule_yymmdd_def abc sum_to_option_def split: sum.splits)
qed

lemma parse_dotted_other: "length (split_on CHR ''.'' dtext) \<noteq> 2 \<Longrightarrow> length (split_on CHR ''.'' dtext) \<noteq> 3 \<Longrightarrow>
   (case parse_dotted dtext today of Inr r \<Rightarrow> r | Inl _ \<Rightarrow> None) = None"
  by (simp add: parse_dotted_def)

lemma parse_date_unfold:
  "parse_date (Some tag) today =
     (if rule_full_timestamp tag \<noteq> None then rule_full_timestamp tag
      else if CHR '':'' \<in> set (date_text tag) then rule_hhmm (date_text tag) today
      else if CHR ''.'' \<in> set (date_text tag) \<and> length (split_on CHR ''.'' (date_text tag)) = 2
        then rule_mmdd (date_text tag) today
      else if CHR ''.'' \<in> set (date_text tag) \<and> length (split_on CHR ''.'' (date_text tag)) = 3
        then rule_yymmdd (date_text tag)
      else None)"
proof -
  have hh: "(case parse_hhmm dtext today of Inr d \<Rightarrow> Some d | Inl _ \<Rightarrow> None) = rule_hhmm dtext today" for dtext
    using parse_hhmm_rule [of dtext today] by (simp add: sum_to_option_def split: sum.splits)
  show ?thesis
    using parse_dotted_2 [of "date_text tag" today] parse_dotted_3 [of "date_text tag" today]
      parse_dotted_other [of "date_text tag" today]
    by (cases "date_title tag")
       (auto simp: parse_date_def parse_title_def rule_full_timestamp_def truthy_def sum_to_option_def hh
             split: sum.splits)
qed

text \<open>
  Claim C2, as the code has it. For every date cell, a full timestamp on the cell that
  parses is the result. In every other case (no such attribute, an empty one, or one
  that does not parse) the displayed text decides, by exactly one rule that its format
  selects: \<open>HH:MM\<close> when it holds a colon; otherwise, when it holds a dot, \<open>MM.DD\<close> for two
  segments and \<open>YY.MM.DD\<close> for three; a text that fails under its rule yields none and no
  later rule is tried. (The claim's last part fails: a malformed timestamp attribute
  falls through to the displayed text.)
\<close>

theorem parse_date_rules:
  "parse_date (Some tag) today =
     (if rule_full_timestamp tag \<noteq> None then rule_full_timestamp tag
      else if CHR '':'' \<in> set (date_text tag) then rule_hhmm (date_text tag) today
      else if CHR ''.'' \<in> set (date_text tag) \<and> length (split_on CHR ''.'' (date_text tag)) = 2
        then rule_mmdd (date_text tag) today
      else if CHR ''.'' \<in> set (date_text tag) \<and> length (split_on CHR ''.'' (date_text tag)) = 3
        then rule_yymmdd (date_text tag)
      else None)"
  by (rule parse_date_unfold)

lemma py_int_separator: "py_int [CHR 0x1C, CHR ''0'', CHR ''5''] = Inl ValueError"
  by (simp add: str_defs)

theorem parse_date_rules_witness:
  "parse_date (Some \<lparr>date_title = None, date_text = ''14:05''\<rparr>) sample_today =
     rule_hhmm ''14:05'' sample_today \<and>
   parse_date (Some \<lparr>date_title = None, date_text = ''14:'' @ [CHR 0x1C, CHR ''0'', CHR ''5'']\<rparr>)
     sample_today = None"
  using parse_date_rules [of "\<lparr>date_title = None, date_text = ''14:05''\<rparr>" sample_today]
    parse_date_rules [of "\<lparr>date_title = None, date_text = ''14:'' @ [CHR 0x1C, CHR ''0'', CHR ''5'']\<rparr>"
      sample_today]
  by (simp add: rule_full_timestamp_def rule_hhmm_def py_int_separator split: sum.splits)

lemma py_int_14: "py_int ''14'' = Inr 14"
  by (simp add: str_defs)

lemma py_int_05: "py_int ''05'' = Inr 5"
  by (simp add: str_defs)

lemma parse_date_1405:
  "parse_date (Some \<lparr>date_title = t, date_text = ''14:05''\<rparr>) sample_today =
     (if rule_full_timestamp \<lparr>date_title = t, date_text = ''14:05''\<rparr> \<noteq> None
      then rule_full_timestamp \<lparr>date_title = t, date_text = ''14:05''\<rparr>
      else Some \<lparr>year = 2024, month = 3, day = 11, hour = 14, minute = 5, second = 0,
                  microsecond = 0\<rparr>)"
  by (simp add: parse_date_unfold rule_hhmm_def py_int_14 py_int_05 sum_to_option_def datetime_new_def
        sample_today_def MINYEAR_def MAXYEAR_def days_in_month_def)

lemma strptime_slashes: "strptime expect_space ''2024/03/10'' = Inl ValueError"
  by (simp add: strptime_defs is_digit_def)

text \<open>
  The claim fails where the timestamp attribute is malformed and the displayed text is a
  time of day: the cell resolves to that time on the reference date.
\<close>

theorem parse_date_malformed_title_counterexample:
  "parse_title ''2024/03/10'' = Inl ValueError \<and>
   parse_date (Some \<lparr>date_title = Some ''2024/03/10'', date_text = ''14:05''\<rparr>) sample_today =
     Some \<lparr>year = 2024, month = 3, day = 11, hour = 14, minute = 5, second = 0, microsecond = 0\<rparr>"
  by (simp add: parse_title_def strptime_slashes parse_date_1405 rule_full_timestamp_def
        sum_to_option_def)

section \<open>extract_post_data\<close>

lemma strftime_sample:
  "strftime_date \<lparr>year = 2024, month = 3, day = 11, hour = 14, minute = 5, second = 0, microsecond = 0\<rparr> = ''2024-03-11''"
  "strftime_time \<lparr>year = 2024, month = 3, day = 11, hour = 14, minute = 5, second = 0, microsecond = 0\<rparr> = ''14:05:00''"
  "strftime_iso \<lparr>year = 2024, month = 3, day = 11, hour = 14, minute = 5, second = 0, microsecond = 0\<rparr> = ''2024-03-11T14:05:00''"
  by (simp_all add: strftime_defs str_defs)

lemma extract_post_data_Some:
  assumes "extract_post_data r today = Some pd"
  obtains tt h d where "\<not> contains ''icon_notice'' (get_attr (data_type r) '''')"
    "gall_tit_a r = Some tt" "href tt = Some h"
    "\<not> (get_attr (data_no r) '''' = [] \<and> \<not> isdigit (get_attr (gall_num r) ''''))"
    "parse_date (gall_date r) today = Some d"
    "post_id pd = (if get_attr (data_no r) '''' = [] then get_attr (gall_num r) '''' else get_attr (data_no r) '''')"
    "author pd = fst (writer_info (gall_writer r))"
    "author_type pd = fst (snd (writer_info (gall_writer r)))"
    "author_ip pd = snd (snd (writer_info (gall_writer r)))"
    "datetime_obj pd = d" "datetime pd = strftime_iso d"
  using assms
  by (auto simp: extract_post_data_def extract_body_def Let_def
           split: if_splits option.splits sum.splits prod.splits)

lemma writer_info_Some:
  "writer_info (Some w) =
     (if truthy (data_nick w) then the (data_nick w) else writer_text w,
      if truthy (data_uid w) then ''member''
      else if truthy (data_ip w) \<and>
              startswith (if truthy (data_nick w) then the (data_nick w) else writer_text w)
                semi_anonymous_marker
      then ''semi_anonymous'' else ''ip'',
      get_attr (data_ip w) '''')"
  by (cases "data_nick w"; cases "data_ip w")
     (auto simp: writer_info_def Let_def get_attr_def truthy_def)

lemma writer_info_None: "writer_info None = ('''', ''unknown'', '''')"
  by (simp add: writer_info_def)

text \<open>
  Claim C3, as the code has it. For every extracted row, author_type is \<open>member\<close> when
  the writer cell has a non-empty \<open>data-uid\<close>; otherwise \<open>semi_anonymous\<close> when it has a
  non-empty \<open>data-ip\<close> and the author (the nickname attribute, else the displayed text)
  starts with the marker; otherwise \<open>ip\<close>, with or without an IP attribute. It is
  \<open>unknown\<close> only for a row that has no writer cell.
\<close>

theorem author_type_resolution:
  assumes "extract_post_data r today = Some pd"
  shows "author_type pd =
     (case gall_writer r of
        None \<Rightarrow> ''unknown''
      | Some w \<Rightarrow>
          if truthy (data_uid w) then ''member''
          else if truthy (data_ip w) \<and> startswith (author pd) semi_anonymous_marker
          then ''semi_anonymous''
          else ''ip'')"
proof -
  from assms have a: "author pd = fst (writer_info (gall_writer r))"
    and t: "author_type pd = fst (snd (writer_info (gall_writer r)))"
    by (auto elim: extract_post_data_Some)
  show ?thesis
    by (cases "gall_writer r") (simp_all add: a t writer_info_None writer_info_Some)
qed

lemma extract_sample_row:
  "extract_post_data (sample_row no \<lparr>date_title = None, date_text = ''14:05''\<rparr> w) sample_today =
     (if no = [] then None else
     Some \<lparr>post_id = no, title = ''hello'',
           author = fst (writer_info w), author_ip = snd (snd (writer_info w)),
           author_type = fst (snd (writer_info w)),
           date = ''2024-03-11'', time = ''14:05:00'', datetime = ''2024-03-11T14:05:00'',
           views = 10, likes = 0, comments = 3, url = ''https://gall.dcinside.com/v'',
           datetime_obj = \<lparr>year = 2024, month = 3, day = 11, hour = 14, minute = 5, second = 0,
                            microsecond = 0\<rparr>\<rparr>)"
proof -
  have c: "\<not> contains ''icon_notice'' ''icon_txt''"
    by (simp add: startswith_def)
  have n: "parse_count (Some ''10'') = 10" "parse_count (Some ''-'') = 0"
       "py_int (strip_chars ''[]'' ''[3]'') = Inr 3"
    by (simp_all add: parse_count_def str_defs)
  have e: "isdigit [] = False"
    by (simp add: isdigit_def)
  show ?thesis
    by (cases "writer_info w")
       (simp add: extract_post_data_def extract_body_def sample_row_def get_attr_def c n e
          parse_date_1405 rule_full_timestamp_def strftime_sample del: contains.simps)
qed

text \<open>
  The claim fails for a writer cell with neither attribute: the type is \<open>ip\<close>, not
  \<open>unknown\<close>.
\<close>

theorem author_type_unknown_counterexample:
  "gall_writer (sample_row ''100'' \<lparr>date_title = None, date_text = ''14:05''\<rparr>
      (Some \<lparr>data_nick = Some ''kim'', data_ip = None, data_uid = None, writer_text = ''kim''\<rparr>))
     = Some \<lparr>data_nick = Some ''kim'', data_ip = None, data_uid = None, writer_text = ''kim''\<rparr> \<and>
   map_option author_type
     (extract_post_data
        (sample_row ''100'' \<lparr>date_title = None, date_text = ''14:05''\<rparr>
           (Some \<lparr>data_nick = Some ''kim'', data_ip = None, data_uid = None, writer_text = ''kim''\<rparr>))
        sample_today) = Some ''ip''"
  by (simp add: extract_sample_row writer_info_Some truthy_def) (simp add: sample_row_def)

theorem author_type_resolution_witness:
  "extract_post_data (sample_row ''100'' \<lparr>date_title = None, date_text = ''14:05''\<rparr> (Some sample_writer))
      sample_today \<noteq> None \<and>
   map_option author_type
     (extract_post_data (sample_row ''100'' \<lparr>date_title = None, date_text = ''14:05''\<rparr> (Some sample_writer))
        sample_today) = Some ''ip''"
proof -
  obtain pd where pd: "extract_post_data
      (sample_row ''100'' \<lparr>date_title = None, date_text = ''14:05''\<rparr> (Some sample_writer)) sample_today = Some pd"
    by (simp add: extract_sample_row)
  have "author pd = ''kim''"
    using pd by (auto simp: extract_sample_row writer_info_Some sample_writer_def truthy_def)
  then have "author_type pd = ''ip''"
    using author_type_resolution [OF pd]
    by (simp add: sample_row_def sample_writer_def truthy_def startswith_def semi_anonymous_marker_def)
  with pd show ?thesis by simp
qed

lemma extract_body_writer:
  "writer_info w1 = writer_info w2 \<Longrightarrow>
   extract_body (r\<lparr>gall_writer := w1\<rparr>) today = extract_body (r\<lparr>gall_writer := w2\<rparr>) today"
  by (simp add: extract_body_def Let_def split: option.splits)

text \<open>
  Claim C10. For every extracted row with a writer cell, the author is the nickname
  attribute when that is present and non-empty, and the cell's displayed text otherwise;
  with a non-empty nickname attribute the displayed text has no effect on the record.
\<close>

theorem author_from_nick_or_text:
  "(\<forall>pd. extract_post_data r today = Some pd \<and> gall_writer r = Some w \<longrightarrow>
        author pd = (if truthy (data_nick w) then the (data_nick w) else writer_text w)) \<and>
   (truthy (data_nick w) \<longrightarrow>
      extract_post_data (r\<lparr>gall_writer := Some (w\<lparr>writer_text := t\<rparr>)\<rparr>) today =
      extract_post_data (r\<lparr>gall_writer := Some w\<rparr>) today)"
proof (intro conjI allI impI)
  fix pd assume "extract_post_data r today = Some pd \<and> gall_writer r = Some w"
  then show "author pd = (if truthy (data_nick w) then the (data_nick w) else writer_text w)"
    by (auto elim!: extract_post_data_Some simp: writer_info_Some)
next
  assume "truthy (data_nick w)"
  then have "writer_info (Some (w\<lparr>writer_text := t\<rparr>)) = writer_info (Some w)"
    by (simp add: writer_info_Some)
  then have "extract_body (r\<lparr>gall_writer := Some (w\<lparr>writer_text := t\<rparr>)\<rparr>) today =
      extract_body (r\<lparr>gall_writer := Some w\<rparr>) today"
    by (rule extract_body_writer)
  then show "extract_post_data (r\<lparr>gall_writer := Some (w\<lparr>writer_text := t\<rparr>)\<rparr>) today =
      extract_post_data (r\<lparr>gall_writer := Some w\<rparr>) today"
    by (simp add: extract_post_data_def)
qed

theorem author_from_nick_or_text_witness:
  "map_option author
     (extract_post_data
        (sample_row ''100'' \<lparr>date_title = None, date_text = ''14:05''\<rparr>
           (Some \<lparr>data_nick = None, data_ip = Some ''1.2'', data_uid = None, writer_text = ''lee''\<rparr>))
        sample_today) = Some ''lee'' \<and>
   truthy (data_nick sample_writer) \<and>
   extract_post_data
     ((sample_row ''100'' \<lparr>date_title = None, date_text = ''14:05''\<rparr> None)
        \<lparr>gall_writer := Some (sample_writer\<lparr>writer_text := ''lee''\<rparr>)\<rparr>) sample_today =
   extract_post_data
     ((sample_row ''100'' \<lparr>date_title = None, date_text = ''14:05''\<rparr> None)
        \<lparr>gall_writer := Some sample_writer\<rparr>) sample_today"
proof -
  let ?w = "\<lparr>data_nick = None, data_ip = Some ''1.2'', data_uid = None, writer_text = ''lee''\<rparr>"
  let ?r = "sample_row ''100'' \<lparr>date_title = None, date_text = ''14:05''\<rparr> (Some ?w)"
  obtain pd where pd: "extract_post_data ?r sample_today = Some pd"
    by (simp add: extract_sample_row)
  have "gall_writer ?r = Some ?w"
    by (simp add: sample_row_def)
  with pd have "author pd = ''lee''"
    using author_from_nick_or_text [of ?r sample_today ?w]
    by (simp add: truthy_def)
  moreover have t: "truthy (data_nick sample_writer)"
    by (simp add: sample_writer_def truthy_def)
  ultimately show ?thesis
    using pd t author_from_nick_or_text
      [of "sample_row ''100'' \<lparr>date_title = None, date_text = ''14:05''\<rparr> None" sample_today
          sample_writer "''lee''"]
    by simp
qed

section \<open>The row loop and the page loop\<close>

lemma process_rows_skip:
  "extract_post_data r today = None \<Longrightarrow>
   process_rows ids today cutoff (pre @ r # rest) st = process_rows ids today cutoff (pre @ rest) st"
  by (induction pre arbitrary: st) (simp_all split: option.splits)

lemma process_rows_append:
  "process_rows ids today cutoff (pre @ rest) st =
     (if fst (process_rows ids today cutoff pre st) then process_rows ids today cutoff pre st
      else process_rows ids today cutoff rest (snd (process_rows ids today cutoff pre st)))"
  by (induction pre arbitrary: st) (simp_all split: option.splits)

lemma process_rows_count:
  "process_rows ids today cutoff rows st = (False, st') \<Longrightarrow> consecutive_dup_count st < 5 \<Longrightarrow>
   consecutive_dup_count st' < 5"
  by (induction rows arbitrary: st) (auto split: option.splits if_splits)

lemma process_rows_posts:
  "process_rows ids today cutoff rows st = (b, st') \<Longrightarrow>
   \<exists>new. all_posts st' = all_posts st @ new \<and>
     (\<forall>pd \<in> set new. post_id pd \<notin> ids \<and> dt_ge (datetime_obj pd) cutoff \<and>
         (\<exists>r \<in> set rows. extract_post_data r today = Some pd))"
proof (induction rows arbitrary: st)
  case Nil
  then show ?case by simp
next
  case (Cons r rows)
  show ?case
  proof (cases "extract_post_data r today")
    case None
    with Cons.prems have "process_rows ids today cutoff rows st = (b, st')" by simp
    from Cons.IH [OF this] show ?thesis by auto
  next
    case (Some pd)
    show ?thesis
    proof (cases "post_id pd \<in> ids")
      case True
      show ?thesis
      proof (cases "consecutive_dup_count st + 1 \<ge> 5")
        case True
        with Cons.prems Some \<open>post_id pd \<in> ids\<close> show ?thesis by auto
      next
        case False
        with Cons.prems Some \<open>post_id pd \<in> ids\<close>
        have "process_rows ids today cutoff rows
                (st\<lparr>consecutive_dup_count := consecutive_dup_count st + 1\<rparr>) = (b, st')" by simp
        from Cons.IH [OF this] show ?thesis by auto
      qed
    next
      case False
      show ?thesis
      proof (cases "dt_ge (datetime_obj pd) cutoff")
        case True
        with Cons.prems Some \<open>post_id pd \<notin> ids\<close>
        have "process_rows ids today cutoff rows
                (st\<lparr>consecutive_dup_count := 0, all_posts := all_posts st @ [pd],
                    new_posts_count := new_posts_count st + 1\<rparr>) = (b, st')" by simp
        from Cons.IH [OF this] obtain new where
          n: "all_posts st' = (all_posts st @ [pd]) @ new"
             "\<forall>q \<in> set new. post_id q \<notin> ids \<and> dt_ge (datetime_obj q) cutoff \<and>
                (\<exists>r \<in> set rows. extract_post_data r today = Some q)"
          by auto
        have "all_posts st' = all_posts st @ (pd # new)" using n(1) by simp
        moreover have "\<forall>q \<in> set (pd # new). post_id q \<notin> ids \<and> dt_ge (datetime_obj q) cutoff \<and>
                (\<exists>x \<in> set (r # rows). extract_post_data x today = Some q)"
          using n(2) Some True \<open>post_id pd \<notin> ids\<close> by auto
        ultimately show ?thesis by blast
      next
        case False
        with Cons.prems Some \<open>post_id pd \<notin> ids\<close> show ?thesis by auto
      qed
    qed
  qed
qed

lemma crawl_loop_request_failed:
  "fetch page = RequestException \<Longrightarrow> crawl_loop fetch ids today cutoff page st = Some st"
  by (subst crawl_loop.simps) simp

lemma crawl_loop_empty_page:
  "fetch page = Page [] \<Longrightarrow> crawl_loop fetch ids today cutoff page st = Some st"
  by (subst crawl_loop.simps) simp

lemma crawl_loop_stop:
  "fetch page = Page rows \<Longrightarrow> process_rows ids today cutoff rows st = (True, st') \<Longrightarrow>
   crawl_loop fetch ids today cutoff page st = Some st'"
  by (subst crawl_loop.simps) (cases rows; simp)

lemma crawl_loop_next:
  "fetch page = Page rows \<Longrightarrow> rows \<noteq> [] \<Longrightarrow> process_rows ids today cutoff rows st = (False, st') \<Longrightarrow>
   crawl_loop fetch ids today cutoff page st = crawl_loop fetch ids today cutoff (Suc page) st'"
  by (subst crawl_loop.simps) simp

lemma map_filter_Cons:
  "List.map_filter f (x # xs) = (case f x of None \<Rightarrow> List.map_filter f xs | Some y \<Rightarrow> y # List.map_filter f xs)"
  by (simp add: List.map_filter_def split: option.splits)

lemma map_filter_Nil: "List.map_filter f [] = []"
  by (simp add: List.map_filter_def)

lemma map_filter_append: "List.map_filter f (xs @ ys) = List.map_filter f xs @ List.map_filter f ys"
  by (simp add: List.map_filter_def)

text \<open>Rows whose first records are known: the counter runs up to 5 and the loop stops.\<close>

lemma process_rows_known_prefix:
  assumes "consecutive_dup_count st + n = 5" "0 < n"
    "n \<le> length (List.map_filter (\<lambda>r. extract_post_data r today) rows)"
    "\<forall>pd \<in> set (take n (List.map_filter (\<lambda>r. extract_post_data r today) rows)). post_id pd \<in> ids"
  shows "process_rows ids today cutoff rows st = (True, st\<lparr>consecutive_dup_count := 5\<rparr>)"
  using assms
proof (induction rows arbitrary: st n)
  case Nil
  then show ?case by (simp add: map_filter_Nil)
next
  case (Cons r rows)
  show ?case
  proof (cases "extract_post_data r today")
    case None
    with Cons.prems Cons.IH [of st n] show ?thesis
      by (simp add: map_filter_Cons)
  next
    case (Some pd)
    with Cons.prems have known: "post_id pd \<in> ids"
      by (cases n) (auto simp: map_filter_Cons)
    show ?thesis
    proof (cases "n = 1")
      case True
      with Cons.prems Some known show ?thesis by simp
    next
      case False
      with Cons.prems obtain m where m: "n = Suc m" "0 < m" by (cases n) auto
      let ?st = "st\<lparr>consecutive_dup_count := consecutive_dup_count st + 1\<rparr>"
      have "process_rows ids today cutoff rows ?st = (True, ?st\<lparr>consecutive_dup_count := 5\<rparr>)"
        using Cons.prems Some m by (intro Cons.IH [of ?st m]) (auto simp: map_filter_Cons)
      with Cons.prems Some known m show ?thesis by simp
    qed
  qed
qed

text \<open>Pages that all parse into rows behave as one long page.\<close>

lemma crawl_loop_pages:
  assumes "\<forall>p. s \<le> p \<and> p < s + k \<longrightarrow> (\<exists>rows. fetch p = Page rows \<and> rows \<noteq> [])"
    "process_rows ids today cutoff (concat (map (\<lambda>p. page_rows (fetch p)) [s..<s + k])) st = (True, st')"
  shows "crawl_loop fetch ids today cutoff s st = Some st'"
  using assms
proof (induction k arbitrary: s st)
  case 0
  then show ?case by simp
next
  case (Suc k)
  from Suc.prems(1) obtain rows where rows: "fetch s = Page rows" "rows \<noteq> []"
    using Suc.prems(1) [rule_format, of s] by auto
  have split: "[s..<s + Suc k] = s # [Suc s..<Suc s + k]"
    by (simp add: upt_rec)
  have all: "process_rows ids today cutoff
       (rows @ concat (map (\<lambda>p. page_rows (fetch p)) [Suc s..<Suc s + k])) st = (True, st')"
    using Suc.prems(2) rows unfolding split by (simp add: page_rows_def)
  show ?case
  proof (cases "fst (process_rows ids today cutoff rows st)")
    case True
    with all have "process_rows ids today cutoff rows st = (True, st')"
      by (simp add: process_rows_append)
    with rows show ?thesis by (simp add: crawl_loop_stop)
  next
    case False
    define st1 where "st1 = snd (process_rows ids today cutoff rows st)"
    from False have p: "process_rows ids today cutoff rows st = (False, st1)"
      by (simp add: st1_def prod_eq_iff)
    with all have "process_rows ids today cutoff
       (concat (map (\<lambda>p. page_rows (fetch p)) [Suc s..<Suc s + k])) st1 = (True, st')"
      by (simp add: process_rows_append)
    moreover have "\<forall>p. Suc s \<le> p \<and> p < Suc s + k \<longrightarrow> (\<exists>rows. fetch p = Page rows \<and> rows \<noteq> [])"
      using Suc.prems(1) by auto
    ultimately have "crawl_loop fetch ids today cutoff (Suc s) st1 = Some st'"
      by (intro Suc.IH) auto
    with rows p show ?thesis by (simp add: crawl_loop_next)
  qed
qed

text \<open>What a crawl that returns has collected.\<close>

lemma crawl_loop_posts:
  assumes "crawl_loop fetch ids today cutoff page st = Some st'"
  shows "\<exists>new. all_posts st' = all_posts st @ new \<and>
     (\<forall>pd \<in> set new. post_id pd \<notin> ids \<and> dt_ge (datetime_obj pd) cutoff)"
proof (rule crawl_loop.raw_induct
    [where P = "\<lambda>fetch ids today cutoff page st st'. \<exists>new. all_posts st' = all_posts st @ new \<and>
        (\<forall>pd \<in> set new. post_id pd \<notin> ids \<and> dt_ge (datetime_obj pd) cutoff)", OF _ assms])
  fix loop fetch ids today cutoff page st st'
  assume 1: "\<And>ids today cutoff page st b y. loop ids today cutoff page st b = Some y \<Longrightarrow>
       \<exists>new. all_posts y = all_posts b @ new \<and>
        (\<forall>pd \<in> set new. post_id pd \<notin> today \<and> dt_ge (datetime_obj pd) page)"
    "(case fetch page of RequestException \<Rightarrow> Some st
      | Page rows \<Rightarrow>
          if rows = [] then Some st
          else if fst (process_rows ids today cutoff rows st)
               then Some (snd (process_rows ids today cutoff rows st))
               else loop fetch ids today cutoff (page + 1)
                     (snd (process_rows ids today cutoff rows st))) = Some st'"
  show "\<exists>new. all_posts st' = all_posts st @ new \<and>
        (\<forall>pd \<in> set new. post_id pd \<notin> ids \<and> dt_ge (datetime_obj pd) cutoff)"
  proof (cases "fetch page")
    case RequestException
    with 1(2) show ?thesis by simp
  next
    case (Page rows)
    obtain b st1 where p: "process_rows ids today cutoff rows st = (b, st1)"
      by (cases "process_rows ids today cutoff rows st")
    from process_rows_posts [OF p] obtain new1 where
      n1: "all_posts st1 = all_posts st @ new1"
          "\<forall>pd \<in> set new1. post_id pd \<notin> ids \<and> dt_ge (datetime_obj pd) cutoff"
      by blast
    show ?thesis
    proof (cases "rows = [] \<or> b")
      case True
      with 1(2) Page p n1 show ?thesis by (auto split: if_splits)
    next
      case False
      with 1(2) Page p have "loop fetch ids today cutoff (page + 1) st1 = Some st'"
        by simp
      from 1(1) [OF this] n1 show ?thesis by auto
    qed
  qed
qed

section \<open>The stopping rules of the crawl\<close>

lemma extract_failures:
  "contains ''icon_notice'' (get_attr (data_type r) '''') \<Longrightarrow> extract_post_data r today = None"
  "gall_tit_a r = None \<Longrightarrow> extract_post_data r today = None"
  "get_attr (data_no r) '''' = [] \<Longrightarrow> \<not> isdigit (get_attr (gall_num r) '''') \<Longrightarrow>
     extract_post_data r today = None"
  "parse_date (gall_date r) today = None \<Longrightarrow> extract_post_data r today = None"
  "extract_body r today = Inl e \<Longrightarrow> extract_post_data r today = None"
  by (simp_all add: extract_post_data_def extract_body_def Let_def split: option.splits sum.splits)

lemma extract_body_no_href:
  "\<not> contains ''icon_notice'' (get_attr (data_type r) '''') \<Longrightarrow> gall_tit_a r = Some tt \<Longrightarrow>
   href tt = None \<Longrightarrow> extract_body r today = Inl KeyError"
  by (simp add: extract_body_def Let_def)

text \<open>
  Claim C9. For every row and reference time, \<open>extract_post_data\<close> returns a record or
  \<open>None\<close> and never raises: a notice row, a row without title link, a row whose id
  falls back to a non-numeric column text, a row without resolvable timestamp, and a row
  on which the extraction raises (a title link without \<open>href\<close>) all yield \<open>None\<close>. A row
  that yields \<open>None\<close> is skipped: the row loop treats the page as if the row were not
  there, whatever rows come before and after it.
\<close>

theorem extraction_failure_skips_row:
  "(contains ''icon_notice'' (get_attr (data_type r) '''') \<longrightarrow> extract_post_data r today = None) \<and>
   (gall_tit_a r = None \<longrightarrow> extract_post_data r today = None) \<and>
   (get_attr (data_no r) '''' = [] \<and> \<not> isdigit (get_attr (gall_num r) '''') \<longrightarrow>
      extract_post_data r today = None) \<and>
   (parse_date (gall_date r) today = None \<longrightarrow> extract_post_data r today = None) \<and>
   (\<forall>e. extract_body r today = Inl e \<longrightarrow> extract_post_data r today = None) \<and>
   (extract_post_data r today = None \<longrightarrow>
      process_rows ids today cutoff (pre @ r # rest) st =
      process_rows ids today cutoff (pre @ rest) st)"
  using extract_failures [of r today] process_rows_skip [of r today ids cutoff pre rest st]
  by blast

lemma extract_known_row:
  "no \<noteq> [] \<Longrightarrow> extract_post_data (known_row no) sample_today = Some (sample_post_data no)"
  by (simp add: known_row_def sample_cell_def extract_sample_row writer_info_Some sample_writer_def
        truthy_def get_attr_def startswith_def semi_anonymous_marker_def sample_post_data_def)

lemma process_rows_known:
  assumes "extract_post_data r today = Some pd" "post_id pd \<in> ids"
  shows "consecutive_dup_count st + 1 < 5 \<Longrightarrow>
           process_rows ids today cutoff (r # rows) st =
           process_rows ids today cutoff rows (st\<lparr>consecutive_dup_count := consecutive_dup_count st + 1\<rparr>)"
    and "consecutive_dup_count st + 1 = 5 \<Longrightarrow>
           process_rows ids today cutoff (r # rows) st = (True, st\<lparr>consecutive_dup_count := 5\<rparr>)"
  using assms by simp_all

lemma process_rows_new:
  assumes "extract_post_data r today = Some pd" "post_id pd \<notin> ids"
  shows "process_rows ids today cutoff (r # rows) st =
     (if dt_ge (datetime_obj pd) cutoff
      then process_rows ids today cutoff rows
             (st\<lparr>consecutive_dup_count := 0, all_posts := all_posts st @ [pd],
                 new_posts_count := new_posts_count st + 1\<rparr>)
      else (True, st\<lparr>consecutive_dup_count := 0\<rparr>))"
  using assms by simp

lemma crawl_loop_stop_at:
  assumes "fetch page = Page (pre @ r # rows)"
    "process_rows ids today cutoff pre st0 = (False, st)"
    "process_rows ids today cutoff (r # rows) st = (True, st')"
  shows "crawl_loop fetch ids today cutoff page st0 = Some st'"
proof -
  have "process_rows ids today cutoff (pre @ r # rows) st0 = (True, st')"
    using assms(2,3) by (simp add: process_rows_append)
  with assms(1) show ?thesis by (rule crawl_loop_stop)
qed


lemma crawl_known_five:
  assumes "\<forall>p. 1 \<le> p \<and> p < 1 + n \<longrightarrow> (\<exists>rows. fetch p = Page rows \<and> rows \<noteq> [])"
    "5 \<le> length (extracted_records fetch today [1..<1 + n])"
    "\<forall>pd \<in> set (take 5 (extracted_records fetch today [1..<1 + n])). post_id pd \<in> ids"
  shows "crawl_loop fetch ids today cutoff 1 initial_state = Some (initial_state\<lparr>consecutive_dup_count := 5\<rparr>)"
proof -
  have "process_rows ids today cutoff (concat (map (\<lambda>p. page_rows (fetch p)) [1..<1 + n])) initial_state =
          (True, initial_state\<lparr>consecutive_dup_count := 5\<rparr>)"
    using assms(2,3)
    by (intro process_rows_known_prefix [where n = 5]) (simp_all add: initial_state_def extracted_records_def)
  with assms(1) show ?thesis
    by (intro crawl_loop_pages [where k = n]) auto
qed

text \<open>
  Claim C4. For every crawl, reference time, set of known ids and cut-off: (1) an
  extracted record whose id is known adds one to the counter and, while the counter stays
  below 5, the scan goes on with nothing collected from it; (2) when that makes the
  counter 5, the whole crawl returns with what was collected before this row, whatever
  rows and pages follow; (3) an extracted record whose id is not known sets the counter
  to 0; (4) the counter of a scan that goes on is below 5, so the stop comes exactly at 5;
  (5) when all pages up to some page parse into rows and the first five records
  extracted from them are known, the crawl returns with no record collected.
\<close>

theorem consecutive_duplicates_stop_crawl:
  "(\<forall>r pd rows st.
      extract_post_data r today = Some pd \<and> post_id pd \<in> ids \<and> consecutive_dup_count st + 1 < 5 \<longrightarrow>
      process_rows ids today cutoff (r # rows) st =
      process_rows ids today cutoff rows (st\<lparr>consecutive_dup_count := consecutive_dup_count st + 1\<rparr>)) \<and>
   (\<forall>r pd rows pre st0 st fetch page.
      extract_post_data r today = Some pd \<and> post_id pd \<in> ids \<and> consecutive_dup_count st + 1 = 5 \<and>
      fetch page = Page (pre @ r # rows) \<and> process_rows ids today cutoff pre st0 = (False, st) \<longrightarrow>
      crawl_loop fetch ids today cutoff page st0 = Some (st\<lparr>consecutive_dup_count := 5\<rparr>)) \<and>
   (\<forall>r pd rows st.
      extract_post_data r today = Some pd \<and> post_id pd \<notin> ids \<longrightarrow>
      process_rows ids today cutoff (r # rows) st =
        (if dt_ge (datetime_obj pd) cutoff
         then process_rows ids today cutoff rows
                (st\<lparr>consecutive_dup_count := 0, all_posts := all_posts st @ [pd],
                    new_posts_count := new_posts_count st + 1\<rparr>)
         else (True, st\<lparr>consecutive_dup_count := 0\<rparr>))) \<and>
   (\<forall>rows st st'.
      process_rows ids today cutoff rows st = (False, st') \<and> consecutive_dup_count st < 5 \<longrightarrow>
      consecutive_dup_count st' < 5) \<and>
   (\<forall>fetch n.
      (\<forall>p. 1 \<le> p \<and> p < 1 + n \<longrightarrow> (\<exists>rows. fetch p = Page rows \<and> rows \<noteq> [])) \<and>
      5 \<le> length (extracted_records fetch today [1..<1 + n]) \<and>
      (\<forall>pd \<in> set (take 5 (extracted_records fetch today [1..<1 + n])). post_id pd \<in> ids) \<longrightarrow>
      map_option all_posts (crawl_loop fetch ids today cutoff 1 initial_state) = Some [])"
proof (intro conjI allI impI)
  fix r pd rows and st :: crawl_state
  assume "extract_post_data r today = Some pd \<and> post_id pd \<in> ids \<and> consecutive_dup_count st + 1 < 5"
  then show "process_rows ids today cutoff (r # rows) st =
      process_rows ids today cutoff rows (st\<lparr>consecutive_dup_count := consecutive_dup_count st + 1\<rparr>)"
    by (simp add: process_rows_known)
next
  fix r pd rows pre st0 and st :: crawl_state and fetch :: "nat \<Rightarrow> response" and page
  assume a: "extract_post_data r today = Some pd \<and> post_id pd \<in> ids \<and> consecutive_dup_count st + 1 = 5 \<and>
      fetch page = Page (pre @ r # rows) \<and> process_rows ids today cutoff pre st0 = (False, st)"
  then have "process_rows ids today cutoff (r # rows) st = (True, st\<lparr>consecutive_dup_count := 5\<rparr>)"
    by (simp add: process_rows_known)
  with a show "crawl_loop fetch ids today cutoff page st0 = Some (st\<lparr>consecutive_dup_count := 5\<rparr>)"
    by (intro crawl_loop_stop_at [where st = st]) auto
next
  fix r pd rows and st :: crawl_state
  assume "extract_post_data r today = Some pd \<and> post_id pd \<notin> ids"
  then show "process_rows ids today cutoff (r # rows) st =
        (if dt_ge (datetime_obj pd) cutoff
         then process_rows ids today cutoff rows
                (st\<lparr>consecutive_dup_count := 0, all_posts := all_posts st @ [pd],
                    new_posts_count := new_posts_count st + 1\<rparr>)
         else (True, st\<lparr>consecutive_dup_count := 0\<rparr>))"
    by (simp add: process_rows_new)
next
  fix rows and st st' :: crawl_state
  assume "process_rows ids today cutoff rows st = (False, st') \<and> consecutive_dup_count st < 5"
  then show "consecutive_dup_count st' < 5"
    using process_rows_count by blast
next
  fix fetch :: "nat \<Rightarrow> response" and n
  assume "(\<forall>p. 1 \<le> p \<and> p < 1 + n \<longrightarrow> (\<exists>rows. fetch p = Page rows \<and> rows \<noteq> [])) \<and>
      5 \<le> length (extracted_records fetch today [1..<1 + n]) \<and>
      (\<forall>pd \<in> set (take 5 (extracted_records fetch today [1..<1 + n])). post_id pd \<in> ids)"
  then have "crawl_loop fetch ids today cutoff 1 initial_state = Some (initial_state\<lparr>consecutive_dup_count := 5\<rparr>)"
    by (intro crawl_known_five [where n = n]) blast+
  then show "map_option all_posts (crawl_loop fetch ids today cutoff 1 initial_state) = Some []"
    by (simp add: initial_state_def)
qed


lemma sample_ids: "load_all_existing_ids sample_archive = {''6'', ''7'', ''8'', ''9'', ''10''}"
  by (auto simp: load_all_existing_ids_def all_archive_ids_def sample_archive_def sample_week_file_def
        sample_post_def)

lemma sample_dt_ge:
  "dt_ge (datetime_obj (sample_post_data no)) sample_cutoff"
  "\<not> dt_ge (datetime_obj (sample_post_data no)) late_cutoff"
  by (simp_all add: dt_ge_def dt_fields_def sample_post_data_def sample_cutoff_def late_cutoff_def)

lemma sample_post_id: "post_id (sample_post_data no) = no"
  by (simp add: sample_post_data_def)

lemma process_four_known:
  "process_rows {''6'', ''7'', ''8'', ''9'', ''10''} sample_today cutoff
     (map known_row [''6'', ''7'', ''8'', ''9'']) initial_state =
   (False, initial_state\<lparr>consecutive_dup_count := 4\<rparr>)"
  by (simp add: extract_known_row sample_post_id initial_state_def)

theorem consecutive_duplicates_stop_crawl_witness:
  "process_rows (load_all_existing_ids sample_archive) sample_today sample_cutoff [known_row ''6'']
     initial_state = (False, initial_state\<lparr>consecutive_dup_count := 1\<rparr>) \<and>
   crawl_loop sample_fetch (load_all_existing_ids sample_archive) sample_today sample_cutoff 1
     initial_state = Some (initial_state\<lparr>consecutive_dup_count := 5\<rparr>) \<and>
   process_rows (load_all_existing_ids sample_archive) sample_today sample_cutoff [known_row ''11'']
     (initial_state\<lparr>consecutive_dup_count := 4\<rparr>) =
     (False, \<lparr>all_posts = [sample_post_data ''11''], new_posts_count = 1, consecutive_dup_count = 0\<rparr>) \<and>
   map_option all_posts
     (crawl_loop sample_fetch (load_all_existing_ids sample_archive) sample_today sample_cutoff 1
        initial_state) = Some []"
proof -
  let ?ids = "{''6'', ''7'', ''8'', ''9'', ''10''}"
  let ?st4 = "initial_state\<lparr>consecutive_dup_count := 4\<rparr>"
  note T = consecutive_duplicates_stop_crawl [of sample_today ?ids sample_cutoff]
  have h1: "extract_post_data (known_row ''6'') sample_today = Some (sample_post_data ''6'') \<and>
      post_id (sample_post_data ''6'') \<in> ?ids \<and> consecutive_dup_count initial_state + 1 < 5"
    by (simp add: extract_known_row sample_post_id initial_state_def)
  have "process_rows ?ids sample_today sample_cutoff [known_row ''6''] initial_state =
      process_rows ?ids sample_today sample_cutoff []
        (initial_state\<lparr>consecutive_dup_count := consecutive_dup_count initial_state + 1\<rparr>)"
    by (rule T [THEN conjunct1, rule_format, OF h1])
  then have 1: "process_rows ?ids sample_today sample_cutoff [known_row ''6''] initial_state =
      (False, initial_state\<lparr>consecutive_dup_count := 1\<rparr>)"
    by (simp add: initial_state_def)
  have h2: "extract_post_data (known_row ''10'') sample_today = Some (sample_post_data ''10'') \<and>
      post_id (sample_post_data ''10'') \<in> ?ids \<and> consecutive_dup_count ?st4 + 1 = 5 \<and>
      sample_fetch 1 = Page (map known_row [''6'', ''7'', ''8'', ''9''] @ known_row ''10'' # [known_row ''11'']) \<and>
      process_rows ?ids sample_today sample_cutoff (map known_row [''6'', ''7'', ''8'', ''9'']) initial_state =
        (False, ?st4)"
    using process_four_known [of sample_cutoff]
    by (simp add: extract_known_row sample_post_id sample_fetch_def initial_state_def)
  have "crawl_loop sample_fetch ?ids sample_today sample_cutoff 1 initial_state =
      Some (?st4\<lparr>consecutive_dup_count := 5\<rparr>)"
    by (rule T [THEN conjunct2, THEN conjunct1, rule_format, where fetch = sample_fetch and page = 1, OF h2])
  then have 2: "crawl_loop sample_fetch ?ids sample_today sample_cutoff 1 initial_state =
      Some (initial_state\<lparr>consecutive_dup_count := 5\<rparr>)"
    by simp
  have h3: "extract_post_data (known_row ''11'') sample_today = Some (sample_post_data ''11'') \<and>
      post_id (sample_post_data ''11'') \<notin> ?ids"
    by (simp add: extract_known_row sample_post_id)
  have "process_rows ?ids sample_today sample_cutoff [known_row ''11''] ?st4 =
        (if dt_ge (datetime_obj (sample_post_data ''11'')) sample_cutoff
         then process_rows ?ids sample_today sample_cutoff []
                (?st4\<lparr>consecutive_dup_count := 0, all_posts := all_posts ?st4 @ [sample_post_data ''11''],
                    new_posts_count := new_posts_count ?st4 + 1\<rparr>)
         else (True, ?st4\<lparr>consecutive_dup_count := 0\<rparr>))"
    by (rule T [THEN conjunct2, THEN conjunct2, THEN conjunct1, rule_format, OF h3])
  then have 3: "process_rows ?ids sample_today sample_cutoff [known_row ''11''] ?st4 =
     (False, \<lparr>all_posts = [sample_post_data ''11''], new_posts_count = 1, consecutive_dup_count = 0\<rparr>)"
    by (simp add: sample_dt_ge initial_state_def)
  have ex: "extracted_records sample_fetch sample_today [1..<1 + 1] =
      map sample_post_data [''6'', ''7'', ''8'', ''9'', ''10'', ''11'']"
    by (simp add: extracted_records_def sample_fetch_def page_rows_def map_filter_Cons map_filter_Nil
          extract_known_row)
  have h4: "(\<forall>p. 1 \<le> p \<and> p < 1 + 1 \<longrightarrow> (\<exists>rows. sample_fetch p = Page rows \<and> rows \<noteq> [])) \<and>
      5 \<le> length (extracted_records sample_fetch sample_today [1..<1 + 1]) \<and>
      (\<forall>pd \<in> set (take 5 (extracted_records sample_fetch sample_today [1..<1 + 1])). post_id pd \<in> ?ids)"
    unfolding ex by (auto simp: sample_fetch_def sample_post_id)
  have 4: "map_option all_posts (crawl_loop sample_fetch ?ids sample_today sample_cutoff 1 initial_state) = Some []"
    by (rule T [THEN conjunct2, THEN conjunct2, THEN conjunct2, THEN conjunct2, rule_format,
          where fetch = sample_fetch and n = 1, OF h4])
  from 1 2 3 4 show ?thesis
    by (simp only: sample_ids)
qed






theorem extraction_failure_skips_row_witness:
  "extract_post_data ((known_row ''7'')\<lparr>data_type := Some ''icon_notice''\<rparr>) sample_today = None \<and>
   extract_post_data ((known_row ''7'')\<lparr>gall_tit_a := None\<rparr>) sample_today = None \<and>
   extract_post_data ((known_row ''7'')\<lparr>data_no := None, gall_num := Some ''-''\<rparr>) sample_today = None \<and>
   extract_post_data ((known_row ''7'')\<lparr>gall_date := None\<rparr>) sample_today = None \<and>
   extract_body ((known_row ''7'')
      \<lparr>gall_tit_a := Some \<lparr>reply_numbox = None, title_text = ''hello'', href = None\<rparr>\<rparr>) sample_today =
     Inl KeyError \<and>
   extract_post_data ((known_row ''7'')
      \<lparr>gall_tit_a := Some \<lparr>reply_numbox = None, title_text = ''hello'', href = None\<rparr>\<rparr>) sample_today =
     None \<and>
   process_rows {} sample_today sample_cutoff
     ([known_row ''6''] @ (known_row ''7'')\<lparr>gall_date := None\<rparr> # [known_row ''8'']) initial_state =
   process_rows {} sample_today sample_cutoff ([known_row ''6''] @ [known_row ''8'']) initial_state"
proof -
  note T = extraction_failure_skips_row [where today = sample_today]
  have n: "contains ''icon_notice'' ''icon_notice''"
    by (simp add: startswith_def)
  have c: "\<not> contains ''icon_notice'' ''icon_txt''"
    by (simp add: startswith_def)
  have 1: "extract_post_data ((known_row ''7'')\<lparr>data_type := Some ''icon_notice''\<rparr>) sample_today = None"
    using T [where r = "(known_row ''7'')\<lparr>data_type := Some ''icon_notice''\<rparr>", THEN conjunct1] n
    by (simp add: get_attr_def del: contains.simps)
  have 2: "extract_post_data ((known_row ''7'')\<lparr>gall_tit_a := None\<rparr>) sample_today = None"
    using T [where r = "(known_row ''7'')\<lparr>gall_tit_a := None\<rparr>", THEN conjunct2, THEN conjunct1]
    by simp
  have 3: "extract_post_data ((known_row ''7'')\<lparr>data_no := None, gall_num := Some ''-''\<rparr>) sample_today = None"
    using T [where r = "(known_row ''7'')\<lparr>data_no := None, gall_num := Some ''-''\<rparr>",
        THEN conjunct2, THEN conjunct2, THEN conjunct1]
    by (simp add: get_attr_def isdigit_def is_digit_def)
  have 4: "extract_post_data ((known_row ''7'')\<lparr>gall_date := None\<rparr>) sample_today = None"
    using T [where r = "(known_row ''7'')\<lparr>gall_date := None\<rparr>",
        THEN conjunct2, THEN conjunct2, THEN conjunct2, THEN conjunct1]
    by (simp add: parse_date_def)
  let ?r = "(known_row ''7'')\<lparr>gall_tit_a := Some \<lparr>reply_numbox = None, title_text = ''hello'', href = None\<rparr>\<rparr>"
  have 5: "extract_body ?r sample_today = Inl KeyError"
    using c by (intro extract_body_no_href [where tt = "\<lparr>reply_numbox = None, title_text = ''hello'', href = None\<rparr>"])
      (simp_all add: known_row_def sample_row_def get_attr_def del: contains.simps)
  have 6: "extract_post_data ?r sample_today = None"
    using T [where r = ?r, THEN conjunct2, THEN conjunct2, THEN conjunct2, THEN conjunct2, THEN conjunct1] 5
    by blast
  have 7: "process_rows {} sample_today sample_cutoff
     ([known_row ''6''] @ (known_row ''7'')\<lparr>gall_date := None\<rparr> # [known_row ''8'']) initial_state =
   process_rows {} sample_today sample_cutoff ([known_row ''6''] @ [known_row ''8'']) initial_state"
    using T [where r = "(known_row ''7'')\<lparr>gall_date := None\<rparr>" and ids = "{}" and cutoff = sample_cutoff
        and pre = "[known_row ''6'']" and rest = "[known_row ''8'']" and st = initial_state,
        THEN conjunct2, THEN conjunct2, THEN conjunct2, THEN conjunct2, THEN conjunct2] 4
    by blast
  from 1 2 3 4 5 6 7 show ?thesis by blast
qed

section \<open>merge_and_save\<close>

lemma load_save_same: "load_week_data (save_week_data wid data fs) wid = Some data"
  by (induction fs) (auto simp: load_week_data_def)

lemma load_save_other:
  "w \<noteq> wid \<Longrightarrow> load_week_data (save_week_data wid data fs) w = load_week_data fs w"
  by (induction fs) (auto simp: load_week_data_def)

lemma sort_reverse_sorted: "sorted (rev (map k (sort_reverse k xs)))"
  by (simp add: sort_reverse_def rev_map [symmetric])

lemma sort_reverse_stable:
  "filter (\<lambda>x. k x = v) (sort_reverse k xs) = filter (\<lambda>x. k x = v) xs"
  by (simp add: sort_reverse_def rev_filter [symmetric] sort_key_stable)

lemma sort_reverse_sorted_id: "sorted (rev (map k xs)) \<Longrightarrow> sort_reverse k xs = xs"
  by (simp add: sort_reverse_def rev_map [symmetric] sort_key_id_if_sorted)

lemma sort_reverse_idem: "sort_reverse k (sort_reverse k xs) = sort_reverse k xs"
  by (rule sort_reverse_sorted_id) (rule sort_reverse_sorted)

lemma set_sort_reverse: "set (sort_reverse k xs) = set xs"
  by (simp add: sort_reverse_def)

lemma mset_sort_reverse: "mset (sort_reverse k xs) = mset xs"
  by (simp add: sort_reverse_def)

lemma length_sort_reverse: "length (sort_reverse k xs) = length xs"
  by (simp add: sort_reverse_def)

lemma sorted_rev_iff: "sorted (rev xs) \<longleftrightarrow> sorted_wrt (\<lambda>a b. b \<le> a) xs"
  by (simp add: sorted_wrt_rev)

lemma load_merge_and_persist:
  "load_week_data (merge_and_persist now wid wi new_posts fs) wid =
     Some ((create_week_structure now wi)
       \<lparr>posts := sort_reverse datetime (merged_posts (load_week_data fs wid) new_posts),
        total_posts := length (merged_posts (load_week_data fs wid) new_posts)\<rparr>)"
  by (simp add: merge_and_persist_def Let_def load_save_same length_sort_reverse)

lemma merged_posts_covers:
  "post_id ` set new_posts \<subseteq> post_id ` set (merged_posts existing new_posts)"
  by (cases existing) (auto simp: merged_posts_def)

lemma merged_posts_again:
  assumes "post_id ` set new_posts \<subseteq> post_id ` set (posts wfile)"
  shows "merged_posts (Some wfile) new_posts = posts wfile"
proof -
  have "filter (\<lambda>p. post_id p \<notin> set (map post_id (posts wfile))) new_posts = []"
    using assms by (auto simp: filter_empty_conv)
  then show ?thesis by (simp add: merged_posts_def)
qed

text \<open>
  Claim C7. After every merge_and_persist the week file it wrote has its posts sorted by
  the datetime field in non-increasing order; the sort is stable (for every datetime
  value, the records carrying it stand in the order they had before the sort) and keeps
  every record; and total_posts is the length of posts in that file.
\<close>

theorem merge_and_persist_sorted_stable:
  "\<exists>wfile. load_week_data (merge_and_persist now wid wi new_posts fs) wid = Some wfile \<and>
      sorted_wrt (\<lambda>p q. datetime q \<le> datetime p) (posts wfile) \<and>
      (\<forall>v. filter (\<lambda>p. datetime p = v) (posts wfile) =
           filter (\<lambda>p. datetime p = v) (merged_posts (load_week_data fs wid) new_posts)) \<and>
      mset (posts wfile) = mset (merged_posts (load_week_data fs wid) new_posts) \<and>
      total_posts wfile = length (posts wfile)"
proof -
  have "sorted (rev (map datetime (sort_reverse datetime (merged_posts (load_week_data fs wid) new_posts))))"
    by (rule sort_reverse_sorted)
  then have "sorted_wrt (\<lambda>p q. datetime q \<le> datetime p)
      (sort_reverse datetime (merged_posts (load_week_data fs wid) new_posts))"
    by (simp add: sorted_rev_iff sorted_wrt_map)
  then show ?thesis
    by (simp add: load_merge_and_persist sort_reverse_stable mset_sort_reverse length_sort_reverse)
qed

text \<open>
  Claim C6. For every week id and every batch, a second merge_and_persist with the same
  new records on the archive the first one left (at any later time) finds no record to
  add and writes a week file with the same posts and the same total_posts.
\<close>

theorem merge_and_persist_idempotent:
  "\<exists>wfile1 wfile2.
      load_week_data (merge_and_persist now1 wid wi1 new_posts fs) wid = Some wfile1 \<and>
      load_week_data
        (merge_and_persist now2 wid wi2 new_posts (merge_and_persist now1 wid wi1 new_posts fs)) wid =
        Some wfile2 \<and>
      filter (\<lambda>p. post_id p \<notin> set (map post_id (posts wfile1))) new_posts = [] \<and>
      posts wfile2 = posts wfile1 \<and> total_posts wfile2 = total_posts wfile1"
proof -
  let ?m = "merged_posts (load_week_data fs wid) new_posts"
  let ?wfile1 = "(create_week_structure now1 wi1)
       \<lparr>posts := sort_reverse datetime ?m, total_posts := length ?m\<rparr>"
  have l1: "load_week_data (merge_and_persist now1 wid wi1 new_posts fs) wid = Some ?wfile1"
    by (rule load_merge_and_persist)
  have cov: "post_id ` set new_posts \<subseteq> post_id ` set (posts ?wfile1)"
    using merged_posts_covers [of new_posts "load_week_data fs wid"]
    by (simp add: set_sort_reverse)
  then have again: "merged_posts (Some ?wfile1) new_posts = posts ?wfile1"
    by (rule merged_posts_again)
  have empty: "filter (\<lambda>p. post_id p \<notin> set (map post_id (posts ?wfile1))) new_posts = []"
    using cov by (auto simp: filter_empty_conv)
  have l2: "load_week_data
        (merge_and_persist now2 wid wi2 new_posts (merge_and_persist now1 wid wi1 new_posts fs)) wid =
      Some ((create_week_structure now2 wi2)
        \<lparr>posts := sort_reverse datetime ?m, total_posts := length ?m\<rparr>)"
    by (simp add: load_merge_and_persist [of now2] l1 again sort_reverse_idem length_sort_reverse)
  show ?thesis
    unfolding l1 l2 using empty by simp
qed

section \<open>The calendar\<close>

lemma div_step: 
  assumes k: "0 < k"
  shows "(y::int) div k - (y - 1) div k = (if y mod k = 0 then 1 else 0)"
proof (cases "y mod k = 0")
  case True
  then have "y - 1 = (k - 1) + (y div k - 1) * k"
    using div_mult_mod_eq [of y k] by (simp add: algebra_simps)
  then have "(y - 1) div k = ((k - 1) + (y div k - 1) * k) div k"
    by (rule arg_cong [where f = "\<lambda>x. x div k"])
  also have "\<dots> = (k - 1) div k + (y div k - 1)"
    using k by (subst div_mult_self1) auto
  also have "(k - 1) div k = 0"
    using k by (simp add: div_pos_pos_trivial)
  finally show ?thesis using True by simp
next
  case False
  then have pos: "0 < y mod k"
    using k pos_mod_sign [of k y] by linarith
  have "y - 1 = (y mod k - 1) + (y div k) * k"
    using div_mult_mod_eq [of y k] by (simp add: algebra_simps)
  then have "(y - 1) div k = ((y mod k - 1) + (y div k) * k) div k"
    by (rule arg_cong [where f = "\<lambda>x. x div k"])
  also have "\<dots> = (y mod k - 1) div k + y div k"
    using k by (subst div_mult_self1) auto
  also have "(y mod k - 1) div k = 0"
  proof (rule div_pos_pos_trivial)
    show "0 \<le> y mod k - 1" using pos by linarith
    show "y mod k - 1 < k" using pos_mod_bound [OF k, of y] by linarith
  qed
  finally show ?thesis using False by simp
qed

lemma days_before_year_Suc:
  "days_before_year (y + 1) = days_before_year y + (if is_leap y then 366 else 365)"
proof -
  define a where "a = y div 4"
  define a' where "a' = (y - 1) div 4"
  define b where "b = y div 100"
  define b' where "b' = (y - 1) div 100"
  define c where "c = y div 400"
  define c' where "c' = (y - 1) div 400"
  have 4: "a - a' = (if y mod 4 = 0 then 1 else 0)"
    unfolding a_def a'_def by (rule div_step) simp
  have 100: "b - b' = (if y mod 100 = 0 then 1 else 0)"
    unfolding b_def b'_def by (rule div_step) simp
  have 400: "c - c' = (if y mod 400 = 0 then 1 else 0)"
    unfolding c_def c'_def by (rule div_step) simp
  have m1: "y mod 100 = 0 \<Longrightarrow> y mod 4 = 0"
    using dvd_trans [of 4 100 y] by (simp add: mod_eq_0_iff_dvd)
  have m2: "y mod 400 = 0 \<Longrightarrow> y mod 100 = 0"
    using dvd_trans [of 100 400 y] by (simp add: mod_eq_0_iff_dvd)
  have d1: "days_before_year (y + 1) = y * 365 + a - b + c"
    by (simp add: days_before_year_def a_def b_def c_def)
  have d0: "days_before_year y = (y - 1) * 365 + a' - b' + c'"
    by (simp add: days_before_year_def a'_def b'_def c'_def)
  have l: "is_leap y \<longleftrightarrow> (y mod 4 = 0 \<and> (y mod 100 \<noteq> 0 \<or> y mod 400 = 0))"
    by (simp add: is_leap_def)
  show ?thesis
  proof (cases "y mod 4 = 0")
    case False
    with m1 m2 have "y mod 100 \<noteq> 0" "y mod 400 \<noteq> 0" by auto
    with False 4 100 400 show ?thesis unfolding d1 d0 l by simp
  next
    case t4: True
    show ?thesis
    proof (cases "y mod 100 = 0")
      case False
      with m2 have "y mod 400 \<noteq> 0" by auto
      with False t4 4 100 400 show ?thesis unfolding d1 d0 l by simp
    next
      case t100: True
      show ?thesis
      proof (cases "y mod 400 = 0")
        case False
        with t4 t100 4 100 400 show ?thesis unfolding d1 d0 l by simp
      next
        case True
        with t4 t100 4 100 400 show ?thesis unfolding d1 d0 l by simp
      qed
    qed
  qed
qed

lemma ymd2ord_jan1: "ymd2ord y 1 1 = days_before_year y + 1"
  by (simp add: ymd2ord_def days_before_month_def)

lemma isoweek1monday_props:
  "(isoweek1monday y + 6) mod 7 = 0"
  "days_before_year y - 2 \<le> isoweek1monday y"
  "isoweek1monday y \<le> days_before_year y + 4"
proof -
  define J where "J = days_before_year y + 1"
  have w: "isoweek1monday y = (if (J + 6) mod 7 > 3 then J - (J + 6) mod 7 + 7 else J - (J + 6) mod 7)"
    by (simp add: isoweek1monday_def ymd2ord_jan1 J_def Let_def)
  show "(isoweek1monday y + 6) mod 7 = 0" unfolding w by presburger
  show "days_before_year y - 2 \<le> isoweek1monday y" unfolding w J_def by presburger
  show "isoweek1monday y \<le> days_before_year y + 4" unfolding w J_def by presburger
qed

lemma year_length: "days_before_year y + 365 \<le> days_before_year (y + 1)"
  "days_before_year (y + 1) \<le> days_before_year y + 366"
  by (simp_all add: days_before_year_Suc)

lemma isoweek1monday_step: "isoweek1monday y + 364 \<le> isoweek1monday (y + 1)"
proof -
  have a: "(isoweek1monday y + 6) mod 7 = 0" "(isoweek1monday (y + 1) + 6) mod 7 = 0"
    by (rule isoweek1monday_props)+
  have "isoweek1monday y + 359 \<le> isoweek1monday (y + 1)"
    using isoweek1monday_props(3) [of y] isoweek1monday_props(2) [of "y + 1"] year_length(1) [of y]
    by linarith
  with a show ?thesis by presburger
qed

lemma isoweek1monday_mono: "y \<le> y' \<Longrightarrow> isoweek1monday y \<le> isoweek1monday y'"
proof (induction y' rule: int_ge_induct)
  case base
  then show ?case by simp
next
  case (step i)
  with isoweek1monday_step [of i] show ?case by linarith
qed

lemma isoweek1monday_unique:
  assumes "isoweek1monday Y \<le> n" "n < isoweek1monday (Y + 1)"
    "isoweek1monday Y' \<le> n" "n < isoweek1monday (Y' + 1)"
  shows "Y = Y'"
proof (rule ccontr)
  assume "Y \<noteq> Y'"
  then consider "Y + 1 \<le> Y'" | "Y' + 1 \<le> Y" by linarith
  then show False
  proof cases
    case 1
    from isoweek1monday_mono [OF this] assms show False by linarith
  next
    case 2
    from isoweek1monday_mono [OF this] assms show False by linarith
  qed
qed

lemma mod7_shift:
  assumes "(w + 6) mod 7 = (0::int)"
  shows "(n - w) mod 7 = (n + 6) mod 7"
proof -
  have "(n - w) mod 7 = ((n + 6) - (w + 6)) mod 7" by simp
  also have "\<dots> = ((n + 6) mod 7 - (w + 6) mod 7) mod 7" by (rule mod_diff_eq [symmetric])
  finally show ?thesis using assms by simp
qed

lemma isocalendar_char:
  assumes "days_before_year (year d) < toordinal d" "toordinal d \<le> days_before_year (year d + 1)"
  shows "iso_week_of (toordinal d) (isocalendar d)"
proof -
  define n where "n = toordinal d"
  define y where "y = year d"
  define w0 where "w0 = isoweek1monday y"
  define w1 where "w1 = isoweek1monday (y + 1)"
  define wm where "wm = isoweek1monday (y - 1)"
  define w2 where "w2 = isoweek1monday (y + 1 + 1)"
  define D where "D = days_before_year y"
  have n: "D < n" "n \<le> days_before_year (y + 1)"
    using assms by (simp_all add: n_def y_def D_def)
  have D1: "D + 365 \<le> days_before_year (y + 1)" "days_before_year (y + 1) \<le> D + 366"
    unfolding D_def by (rule year_length)+
  have Dm: "days_before_year (y - 1) + 365 \<le> D"
    using year_length(1) [of "y - 1"] by (simp add: D_def)
  have D2: "days_before_year (y + 1) + 365 \<le> days_before_year (y + 1 + 1)"
    by (rule year_length)
  have m: "(w0 + 6) mod 7 = 0" "(w1 + 6) mod 7 = 0" "(wm + 6) mod 7 = 0"
    unfolding w0_def w1_def wm_def by (rule isoweek1monday_props)+
  have b0: "D - 2 \<le> w0" "w0 \<le> D + 4"
    unfolding w0_def D_def by (rule isoweek1monday_props)+
  have b1: "days_before_year (y + 1) - 2 \<le> w1" "w1 \<le> days_before_year (y + 1) + 4"
    unfolding w1_def by (rule isoweek1monday_props)+
  have bm: "wm \<le> days_before_year (y - 1) + 4"
    unfolding wm_def by (rule isoweek1monday_props)
  have b2: "days_before_year (y + 1 + 1) - 2 \<le> w2"
    unfolding w2_def by (rule isoweek1monday_props)
  have s01: "w0 + 364 \<le> w1"
    unfolding w0_def w1_def by (rule isoweek1monday_step)
  have iso: "isocalendar d =
      (if (n - w0) div 7 < 0 then (y - 1, (n - wm) div 7 + 1, (n - wm) mod 7 + 1)
       else if (n - w0) div 7 \<ge> 52 \<and> n \<ge> w1 then (y + 1, 1, (n - w0) mod 7 + 1)
       else (y, (n - w0) div 7 + 1, (n - w0) mod 7 + 1))"
    by (simp add: isocalendar_def Let_def n_def y_def w0_def w1_def wm_def toordinal_def)
  have wd0: "(n - w0) mod 7 = (n + 6) mod 7" using m(1) by (rule mod7_shift)
  have wdm: "(n - wm) mod 7 = (n + 6) mod 7" using m(3) by (rule mod7_shift)
  show ?thesis
  proof (cases "(n - w0) div 7 < 0")
    case True
    then have "n < w0" by presburger
    moreover have "wm \<le> n" using bm Dm n by linarith
    ultimately show ?thesis
      using True wdm by (simp add: iso iso_week_of_def n_def [symmetric] wm_def w0_def)
  next
    case False
    then have ge: "w0 \<le> n" by presburger
    show ?thesis
    proof (cases "(n - w0) div 7 \<ge> 52 \<and> n \<ge> w1")
      case True
      have "n < w2" using b2 D2 n by linarith
      moreover have "(n - w1) div 7 = 0" using True b1 n by presburger
      ultimately show ?thesis
        using True False wd0
        by (simp add: iso iso_week_of_def n_def [symmetric] w1_def w2_def)
    next
      case F2: False
      have "n < w1"
      proof (cases "n \<ge> w1")
        case True
        with F2 have "(n - w0) div 7 < 52" by simp
        then have "n < w0 + 364" by presburger
        with s01 show ?thesis by linarith
      next
        case False
        then show ?thesis by simp
      qed
      then show ?thesis
        using F2 False ge wd0
        by (simp add: iso iso_week_of_def n_def [symmetric] w0_def w1_def)
    qed
  qed
qed

lemma month_cases:
  assumes "1 \<le> (m::int)" "m \<le> 12"
  obtains "m = 1" | "m = 2" | "m = 3" | "m = 4" | "m = 5" | "m = 6" | "m = 7" | "m = 8" | "m = 9"
    | "m = 10" | "m = 11" | "m = 12"
  using assms by atomize_elim arith

lemma valid_date_ordinal:
  assumes "1 \<le> m" "m \<le> 12" "1 \<le> d" "d \<le> days_in_month y m"
  shows "days_before_year y < ymd2ord y m d" "ymd2ord y m d \<le> days_before_year (y + 1)"
proof -
  have "0 < days_before_month y m + d \<and>
        days_before_month y m + d \<le> (if is_leap y then 366 else 365)"
    using assms(1,2)
  proof (cases rule: month_cases)
    case 1 with assms(3,4) show ?thesis by (simp add: days_before_month_def days_in_month_def)
  next
    case 2 with assms(3,4) show ?thesis by (simp add: days_before_month_def days_in_month_def split: if_splits)
  next
    case 3 with assms(3,4) show ?thesis by (simp add: days_before_month_def days_in_month_def)
  next
    case 4 with assms(3,4) show ?thesis by (simp add: days_before_month_def days_in_month_def)
  next
    case 5 with assms(3,4) show ?thesis by (simp add: days_before_month_def days_in_month_def)
  next
    case 6 with assms(3,4) show ?thesis by (simp add: days_before_month_def days_in_month_def)
  next
    case 7 with assms(3,4) show ?thesis by (simp add: days_before_month_def days_in_month_def)
  next
    case 8 with assms(3,4) show ?thesis by (simp add: days_before_month_def days_in_month_def)
  next
    case 9 with assms(3,4) show ?thesis by (simp add: days_before_month_def days_in_month_def)
  next
    case 10 with assms(3,4) show ?thesis by (simp add: days_before_month_def days_in_month_def)
  next
    case 11 with assms(3,4) show ?thesis by (simp add: days_before_month_def days_in_month_def)
  next
    case 12 with assms(3,4) show ?thesis by (simp add: days_before_month_def days_in_month_def)
  qed
  then show "days_before_year y < ymd2ord y m d" "ymd2ord y m d \<le> days_before_year (y + 1)"
    by (simp_all add: ymd2ord_def days_before_year_Suc)
qed

lemma month_day_correct:
  assumes "0 \<le> n" "n < (if is_leap y then 366 else 365)" "month_day (is_leap y) n = (m, d)"
  shows "1 \<le> m \<and> m \<le> 12 \<and> 1 \<le> d \<and> d \<le> days_in_month y m \<and> days_before_month y m + d = n + 1"
proof -
  define m0 where "m0 = (n + 50) div 32"
  have "1 \<le> m0" "m0 \<le> 12" using assms(1,2) unfolding m0_def by (auto split: if_splits)
  then have r: "32 * m0 - 50 \<le> n" "n \<le> 32 * m0 - 19" unfolding m0_def by presburger+
  note md = assms(3)
  from \<open>1 \<le> m0\<close> \<open>m0 \<le> 12\<close> show ?thesis
  proof (cases rule: month_cases)
    case 1 with r assms(1,2) md show ?thesis
      by (auto simp: month_day_def m0_def [symmetric] days_before_month_def days_in_month_def
            split: if_splits)
  next
    case 2 with r assms(1,2) md show ?thesis
      by (auto simp: month_day_def m0_def [symmetric] days_before_month_def days_in_month_def
            split: if_splits)
  next
    case 3 with r assms(1,2) md show ?thesis
      by (auto simp: month_day_def m0_def [symmetric] days_before_month_def days_in_month_def
            split: if_splits)
  next
    case 4 with r assms(1,2) md show ?thesis
      by (auto simp: month_day_def m0_def [symmetric] days_before_month_def days_in_month_def
            split: if_splits)
  next
    case 5 with r assms(1,2) md show ?thesis
      by (auto simp: month_day_def m0_def [symmetric] days_before_month_def days_in_month_def
            split: if_splits)
  next
    case 6 with r assms(1,2) md show ?thesis
      by (auto simp: month_day_def m0_def [symmetric] days_before_month_def days_in_month_def
            split: if_splits)
  next
    case 7 with r assms(1,2) md show ?thesis
      by (auto simp: month_day_def m0_def [symmetric] days_before_month_def days_in_month_def
            split: if_splits)
  next
    case 8 with r assms(1,2) md show ?thesis
      by (auto simp: month_day_def m0_def [symmetric] days_before_month_def days_in_month_def
            split: if_splits)
  next
    case 9 with r assms(1,2) md show ?thesis
      by (auto simp: month_day_def m0_def [symmetric] days_before_month_def days_in_month_def
            split: if_splits)
  next
    case 10 with r assms(1,2) md show ?thesis
      by (auto simp: month_day_def m0_def [symmetric] days_before_month_def days_in_month_def
            split: if_splits)
  next
    case 11 with r assms(1,2) md show ?thesis
      by (auto simp: month_day_def m0_def [symmetric] days_before_month_def days_in_month_def
            split: if_splits)
  next
    case 12 with r assms(1,2) md show ?thesis
      by (auto simp: month_day_def m0_def [symmetric] days_before_month_def days_in_month_def
            split: if_splits)
  qed
qed

lemma div_small: "0 \<le> r \<Longrightarrow> r < k \<Longrightarrow> (r + q * k) div k = (q::int)"
  by (cases "k = 0") (simp_all add: div_pos_pos_trivial)

lemma mod_small: "0 \<le> r \<Longrightarrow> r < k \<Longrightarrow> (r + q * k) mod k = (r::int)"
  by (simp add: mod_pos_pos_trivial)

lemma year_parts:
  assumes "0 \<le> b" "b \<le> 3" "0 \<le> c" "c \<le> 24" "0 \<le> e" "e \<le> 3"
  shows "days_before_year (400 * a + 100 * b + 4 * c + e + 1) = 146097 * a + 36524 * b + 1461 * c + 365 * e"
    and "is_leap (400 * a + 100 * b + 4 * c + e + 1) \<longleftrightarrow> e = 3 \<and> (c \<noteq> 24 \<or> b = 3)"
proof -
  define Y where "Y = 400 * a + 100 * b + 4 * c + e"
  have "Y = e + (100 * a + 25 * b + c) * 4" by (simp add: Y_def)
  then have "Y div 4 = (e + (100 * a + 25 * b + c) * 4) div 4" by (rule arg_cong)
  also have "\<dots> = 100 * a + 25 * b + c" using assms by (intro div_small) auto
  finally have d4: "Y div 4 = 100 * a + 25 * b + c" .
  have "Y = (4 * c + e) + (4 * a + b) * 100" by (simp add: Y_def)
  then have "Y div 100 = ((4 * c + e) + (4 * a + b) * 100) div 100" by (rule arg_cong)
  also have "\<dots> = 4 * a + b" using assms by (intro div_small) auto
  finally have d100: "Y div 100 = 4 * a + b" .
  have "Y = (100 * b + 4 * c + e) + a * 400" by (simp add: Y_def)
  then have "Y div 400 = ((100 * b + 4 * c + e) + a * 400) div 400" by (rule arg_cong)
  also have "\<dots> = a" using assms by (intro div_small) auto
  finally have d400: "Y div 400 = a" .
  show "days_before_year (400 * a + 100 * b + 4 * c + e + 1) = 146097 * a + 36524 * b + 1461 * c + 365 * e"
    unfolding days_before_year_def Y_def [symmetric] using d4 d100 d400
    by (simp add: Y_def)
  have m4: "(Y + 1) mod 4 = 0 \<longleftrightarrow> e = 3"
  proof (cases "e = 3")
    case True
    then have "Y + 1 = 0 + (100 * a + 25 * b + c + 1) * 4" by (simp add: Y_def)
    then have "(Y + 1) mod 4 = (0 + (100 * a + 25 * b + c + 1) * 4) mod 4" by (rule arg_cong)
    also have "\<dots> = 0" by (intro mod_small) auto
    finally show ?thesis using True by simp
  next
    case False
    have "Y + 1 = (e + 1) + (100 * a + 25 * b + c) * 4" by (simp add: Y_def)
    then have "(Y + 1) mod 4 = ((e + 1) + (100 * a + 25 * b + c) * 4) mod 4" by (rule arg_cong)
    also have "\<dots> = e + 1" using assms False by (intro mod_small) auto
    finally show ?thesis using False assms by simp
  qed
  have m100: "(Y + 1) mod 100 = 0 \<longleftrightarrow> e = 3 \<and> c = 24"
  proof (cases "e = 3 \<and> c = 24")
    case True
    then have "Y + 1 = 0 + (4 * a + b + 1) * 100" by (simp add: Y_def)
    then have "(Y + 1) mod 100 = (0 + (4 * a + b + 1) * 100) mod 100" by (rule arg_cong)
    also have "\<dots> = 0" by (intro mod_small) auto
    finally show ?thesis using True by simp
  next
    case False
    have "Y + 1 = (4 * c + e + 1) + (4 * a + b) * 100" by (simp add: Y_def)
    then have "(Y + 1) mod 100 = ((4 * c + e + 1) + (4 * a + b) * 100) mod 100" by (rule arg_cong)
    also have "\<dots> = 4 * c + e + 1" using assms False by (intro mod_small) auto
    finally show ?thesis using False assms by auto
  qed
  have m400: "(Y + 1) mod 400 = 0 \<longleftrightarrow> e = 3 \<and> c = 24 \<and> b = 3"
  proof (cases "e = 3 \<and> c = 24 \<and> b = 3")
    case True
    then have "Y + 1 = 0 + (a + 1) * 400" by (simp add: Y_def)
    then have "(Y + 1) mod 400 = (0 + (a + 1) * 400) mod 400" by (rule arg_cong)
    also have "\<dots> = 0" by (intro mod_small) auto
    finally show ?thesis using True by simp
  next
    case False
    have "Y + 1 = (100 * b + 4 * c + e + 1) + a * 400" by (simp add: Y_def)
    then have "(Y + 1) mod 400 = ((100 * b + 4 * c + e + 1) + a * 400) mod 400" by (rule arg_cong)
    also have "\<dots> = 100 * b + 4 * c + e + 1" using assms False by (intro mod_small) auto
    finally show ?thesis using False assms by auto
  qed
  show "is_leap (400 * a + 100 * b + 4 * c + e + 1) \<longleftrightarrow> e = 3 \<and> (c \<noteq> 24 \<or> b = 3)"
    unfolding is_leap_def Y_def [symmetric] using m4 m100 m400 by auto
qed

lemma div_bound:
  assumes "0 \<le> (x::int)" "x < q * k" "0 < k"
  shows "x div k < q"
proof (rule ccontr)
  assume "\<not> x div k < q"
  then have "q * k \<le> x div k * k"
    using assms(3) by (simp add: mult_right_mono)
  also have "\<dots> \<le> x"
    using pos_mod_sign [OF assms(3), of x] div_mult_mod_eq [of x k] by linarith
  finally show False using assms(2) by simp
qed

lemma ord2ymd_correct:
  assumes "ord2ymd n = (y, m, d)"
  shows "1 \<le> m \<and> m \<le> 12 \<and> 1 \<le> d \<and> d \<le> days_in_month y m \<and> ymd2ord y m d = n"
proof -
  define a where "a = (n - 1) div 146097"
  define r where "r = (n - 1) mod 146097"
  define b where "b = r div 36524"
  define r2 where "r2 = r mod 36524"
  define c where "c = r2 div 1461"
  define r3 where "r3 = r2 mod 1461"
  define e where "e = r3 div 365"
  define r4 where "r4 = r3 mod 365"
  have n: "n - 1 = 146097 * a + r" unfolding a_def r_def by simp
  have r: "r = 36524 * b + r2" "0 \<le> r" "r < 146097" unfolding b_def r2_def r_def by simp_all
  have r2: "r2 = 1461 * c + r3" "0 \<le> r2" "r2 < 36524" unfolding c_def r3_def r2_def by simp_all
  have r3: "r3 = 365 * e + r4" "0 \<le> r3" "r3 < 1461" unfolding e_def r4_def r3_def by simp_all
  have r4: "0 \<le> r4" "r4 < 365" unfolding r4_def by simp_all
  have b: "0 \<le> b" "b \<le> 4"
    using r(2,3) div_bound [of r 5 36524] unfolding b_def by (simp_all add: pos_imp_zdiv_nonneg_iff)
  have c: "0 \<le> c" "c \<le> 24"
    using r2(2,3) div_bound [of r2 25 1461] unfolding c_def by (simp_all add: pos_imp_zdiv_nonneg_iff)
  have e: "0 \<le> e" "e \<le> 4"
    using r3(2,3) div_bound [of r3 5 365] unfolding e_def by (simp_all add: pos_imp_zdiv_nonneg_iff)
  have o: "ord2ymd n =
     (if e = 4 \<or> b = 4 then (a * 400 + 1 + b * 100 + c * 4 + e - 1, 12, 31)
      else (case month_day (e = 3 \<and> (c \<noteq> 24 \<or> b = 3)) r4 of
              (m, d) \<Rightarrow> (a * 400 + 1 + b * 100 + c * 4 + e, m, d)))"
    unfolding ord2ymd_def Let_def a_def r_def b_def r2_def c_def r3_def e_def r4_def by (rule refl)
  show ?thesis
  proof (cases "b = 4")
    case True
    with r r2 r3 r4 c e have z: "r2 = 0" "c = 0" "e = 0" "r4 = 0" "r3 = 0" by linarith+
    have y: "y = 400 * (a + 1)" "m = 12" "d = 31" using assms o True z by simp_all
    have "days_before_year (400 * (a + 1) + 100 * 0 + 4 * 0 + 0 + 1) = 146097 * (a + 1) + 36524 * 0 + 1461 * 0 + 365 * 0"
      by (rule year_parts) simp_all
    then have D1: "days_before_year (400 * (a + 1) + 1) = 146097 * (a + 1)" by simp
    have "is_leap (400 * a + 100 * 3 + 4 * 24 + 3 + 1)"
      by (subst year_parts) simp_all
    then have leap: "is_leap (400 * (a + 1))" by (simp add: algebra_simps)
    with days_before_year_Suc [of "400 * (a + 1)"] D1
    have D: "days_before_year (400 * (a + 1)) = 146097 * (a + 1) - 366" by simp
    have "n = 146097 * a + 146097" using n r True z by linarith
    then show ?thesis
      unfolding y using D leap
      by (simp add: ymd2ord_def days_before_month_def days_in_month_def)
  next
    case b4: False
    with b have b3: "b \<le> 3" by linarith
    show ?thesis
    proof (cases "e = 4")
      case True
      with r3 r4 have z: "r4 = 0" "r3 = 1460" by linarith+
      with r2 have c23: "c \<le> 23" by linarith
      have y: "y = 400 * a + 100 * b + 4 * (c + 1)" "m = 12" "d = 31"
        using assms o True by simp_all
      have "days_before_year (400 * a + 100 * b + 4 * (c + 1) + 0 + 1) =
          146097 * a + 36524 * b + 1461 * (c + 1) + 365 * 0"
        using b b3 c c23 by (intro year_parts) simp_all
      then have D1: "days_before_year (400 * a + 100 * b + 4 * (c + 1) + 1) =
          146097 * a + 36524 * b + 1461 * (c + 1)" by simp
      have "is_leap (400 * a + 100 * b + 4 * c + 3 + 1)"
        using b b3 c c23 by (subst year_parts) simp_all
      then have leap: "is_leap (400 * a + 100 * b + 4 * (c + 1))" by (simp add: algebra_simps)
      with days_before_year_Suc [of "400 * a + 100 * b + 4 * (c + 1)"] D1
      have D: "days_before_year (400 * a + 100 * b + 4 * (c + 1)) =
          146097 * a + 36524 * b + 1461 * (c + 1) - 366" by simp
      have "n = 146097 * a + 36524 * b + 1461 * c + 1461" using n r r2 z by linarith
      then show ?thesis
        unfolding y using D leap
        by (simp add: ymd2ord_def days_before_month_def days_in_month_def)
    next
      case False
      with e have e3: "e \<le> 3" by linarith
      define Y where "Y = 400 * a + 100 * b + 4 * c + e + 1"
      have D: "days_before_year Y = 146097 * a + 36524 * b + 1461 * c + 365 * e"
        unfolding Y_def using b b3 c e e3 by (intro year_parts) simp_all
      have leap: "is_leap Y \<longleftrightarrow> e = 3 \<and> (c \<noteq> 24 \<or> b = 3)"
        unfolding Y_def using b b3 c e e3 by (intro year_parts) simp_all
      have md: "y = Y \<and> month_day (is_leap Y) r4 = (m, d)"
        using assms o False b4 unfolding leap by (auto simp: Y_def split: prod.splits)
      have "r4 < (if is_leap Y then 366 else 365)" using r4 by simp
      from month_day_correct [OF r4(1) this, of m d] md
      have v: "1 \<le> m \<and> m \<le> 12 \<and> 1 \<le> d \<and> d \<le> days_in_month Y m \<and> days_before_month Y m + d = r4 + 1"
        by simp
      have "n = 146097 * a + 36524 * b + 1461 * c + 365 * e + r4 + 1" using n r r2 r3 by linarith
      with v D md show ?thesis by (simp add: ymd2ord_def)
    qed
  qed
qed

section \<open>Week identifiers\<close>

lemma digit_char_digit: "k < 10 \<Longrightarrow> is_digit (digit_char k) \<and> digit_value (digit_char k) = int k"
proof -
  assume "k < 10"
  then consider "k = 0" | "k = 1" | "k = 2" | "k = 3" | "k = 4" | "k = 5" | "k = 6" | "k = 7"
    | "k = 8" | "k = 9" by atomize_elim arith
  then show ?thesis
    by cases (simp_all add: digit_char_def is_digit_def digit_value_def)
qed

lemma digits_value_snoc: "digits_value (ds @ [c]) = 10 * digits_value ds + digit_value c"
  by (simp add: digits_value_def)

lemma str_nat_digits: "list_all is_digit (str_nat n) \<and> digits_value (str_nat n) = int n \<and> str_nat n \<noteq> []"
proof (induction n rule: str_nat.induct)
  case (1 n)
  show ?case
  proof (cases "n < 10")
    case True
    then show ?thesis
      by (subst (1 2 3) str_nat.simps) (simp add: digit_char_digit digits_value_def)
  next
    case False
    have k: "n mod 10 < 10" by simp
    from False 1 have ih: "list_all is_digit (str_nat (n div 10))"
      "digits_value (str_nat (n div 10)) = int (n div 10)" by simp_all
    have s: "str_nat n = str_nat (n div 10) @ [digit_char (n mod 10)]"
      using False by (subst str_nat.simps) simp
    show ?thesis
      unfolding s using ih digit_char_digit [OF k]
      by (simp add: digits_value_snoc zdiv_int zmod_int)
  qed
qed

lemma digits_value_zeros: "digits_value (replicate k CHR ''0'' @ ds) = digits_value ds"
  by (induction k) (simp_all add: digits_value_def digit_value_def)

lemma str_int_inj:
  assumes "str_int a = str_int b"
  shows "a = b"
proof -
  have neg: "hd (str_int i) = CHR ''-'' \<longleftrightarrow> i < 0" for i
  proof (cases "i < 0")
    case True
    then show ?thesis by (simp add: str_int_def)
  next
    case False
    have "is_digit (hd (str_nat (nat i)))"
      using str_nat_digits [of "nat i"] by (cases "str_nat (nat i)") simp_all
    then have "hd (str_nat (nat i)) \<noteq> CHR ''-''"
      by (auto simp: is_digit_def)
    with False show ?thesis by (simp add: str_int_def)
  qed
  have val: "(if i < 0 then - digits_value (tl (str_int i)) else digits_value (str_int i)) = i" for i
    using str_nat_digits [of "nat i"] str_nat_digits [of "nat (- i)"] by (simp add: str_int_def)
  from assms neg [of a] neg [of b] have s: "a < 0 \<longleftrightarrow> b < 0" by simp
  show ?thesis
  proof (cases "a < 0")
    case True
    with s have "b < 0" by simp
    with True val [of a] val [of b] have "a = - digits_value (tl (str_int a))"
      "b = - digits_value (tl (str_int b))" by simp_all
    with assms show ?thesis by simp
  next
    case False
    with s have "\<not> b < 0" by simp
    with False val [of a] val [of b] have "a = digits_value (str_int a)"
      "b = digits_value (str_int b)" by simp_all
    with assms show ?thesis by simp
  qed
qed

lemma zfill_inj:
  assumes "zfill w a = zfill w b" "0 \<le> a" "0 \<le> b"
  shows "a = b"
proof -
  have "digits_value (zfill w i) = i" if "0 \<le> i" for i
    using that str_nat_digits [of "nat i"] by (simp add: zfill_def digits_value_zeros)
  with assms show ?thesis by metis
qed

lemma no_underscore:
  "CHR ''_'' \<notin> set (str_int i)"
proof -
  have "CHR ''_'' \<notin> set (str_nat n)" for n
    using str_nat_digits [of n] by (auto simp: list_all_iff is_digit_def)
  then show ?thesis by (simp add: str_int_def)
qed

lemma week_id_inj:
  assumes "str_int Y @ ''_W'' @ zfill 2 W = str_int Y' @ ''_W'' @ zfill 2 W'" "0 \<le> W" "0 \<le> W'"
  shows "Y = Y' \<and> W = W'"
proof -
  have t: "takeWhile (\<lambda>c. c \<noteq> CHR ''_'') (str_int i @ ''_W'' @ z) = str_int i" for i z
    using no_underscore [of i] by (auto simp: takeWhile_tail takeWhile_eq_all_conv)
  have d: "dropWhile (\<lambda>c. c \<noteq> CHR ''_'') (str_int i @ ''_W'' @ z) = ''_W'' @ z" for i z
    using no_underscore [of i] by (auto simp: dropWhile_append3 dropWhile_eq_Nil_conv)
  from assms(1) t [of Y "zfill 2 W"] t [of Y' "zfill 2 W'"] have "str_int Y = str_int Y'" by simp
  moreover from assms(1) d [of Y "zfill 2 W"] d [of Y' "zfill 2 W'"] have "zfill 2 W = zfill 2 W'" by simp
  ultimately show ?thesis using assms(2,3) str_int_inj zfill_inj by blast
qed

section \<open>get_week_info\<close>

lemma days_before_year_mono: "y \<le> y' \<Longrightarrow> days_before_year y \<le> days_before_year y'"
proof (induction y' rule: int_ge_induct)
  case base
  then show ?case by simp
next
  case (step i)
  with year_length(1) [of i] show ?case by linarith
qed

lemma days_before_year_1: "days_before_year 1 = 0"
  by (simp add: days_before_year_def)

lemma days_before_year_10000: "days_before_year 10000 = 3652059"
  by (simp add: days_before_year_def)

lemma valid_toordinal:
  assumes "valid_datetime d"
  shows "days_before_year (year d) < toordinal d" "toordinal d \<le> days_before_year (year d + 1)"
    "1 \<le> toordinal d" "toordinal d \<le> MAXORDINAL"
proof -
  from assms have v: "1 \<le> month d" "month d \<le> 12" "1 \<le> day d" "day d \<le> days_in_month (year d) (month d)"
    and y: "1 \<le> year d" "year d \<le> 9999"
    by (simp_all add: valid_datetime_def MINYEAR_def MAXYEAR_def)
  show a: "days_before_year (year d) < toordinal d"
    unfolding toordinal_def using v by (rule valid_date_ordinal)
  show b: "toordinal d \<le> days_before_year (year d + 1)"
    unfolding toordinal_def using v by (rule valid_date_ordinal)
  from a days_before_year_mono [of 1 "year d"] y show "1 \<le> toordinal d"
    by (simp add: days_before_year_1)
  from b days_before_year_mono [of "year d + 1" 10000] y show "toordinal d \<le> MAXORDINAL"
    by (simp add: days_before_year_10000 MAXORDINAL_def)
qed

text \<open>What add_days returns, when it returns.\<close>

lemma add_days_Inr:
  assumes "0 < toordinal d + k" "toordinal d + k \<le> MAXORDINAL"
  obtains d' where "add_days d k = Inr d'" "toordinal d' = toordinal d + k"
    "(year d', month d', day d') = ord2ymd (toordinal d + k)"
    "days_before_year (year d') < toordinal d'" "toordinal d' \<le> days_before_year (year d' + 1)"
proof -
  obtain y m dd where o: "ord2ymd (toordinal d + k) = (y, m, dd)"
    by (cases "ord2ymd (toordinal d + k)")
  from ord2ymd_correct [OF o]
  have c: "1 \<le> m" "m \<le> 12" "1 \<le> dd" "dd \<le> days_in_month y m" "ymd2ord y m dd = toordinal d + k"
    by simp_all
  let ?d = "d\<lparr>year := y, month := m, day := dd\<rparr>"
  have 1: "add_days d k = Inr ?d" using assms o by (simp add: add_days_def)
  have 2: "toordinal ?d = toordinal d + k" using c(5) by (simp add: toordinal_def)
  have 3: "(year ?d, month ?d, day ?d) = ord2ymd (toordinal d + k)" using o by simp
  have 4: "days_before_year (year ?d) < toordinal ?d"
    using valid_date_ordinal(1) [OF c(1-4)] by (simp add: toordinal_def)
  have 5: "toordinal ?d \<le> days_before_year (year ?d + 1)"
    using valid_date_ordinal(2) [OF c(1-4)] by (simp add: toordinal_def)
  from 1 2 3 4 5 show ?thesis by (rule that)
qed

lemma add_days_Inl:
  "\<not> (0 < toordinal d + k \<and> toordinal d + k \<le> MAXORDINAL) \<Longrightarrow> add_days d k = Inl OverflowError"
  by (auto simp: add_days_def)

lemma weekday_range: "0 \<le> weekday d" "weekday d \<le> 6"
  by (simp_all add: weekday_def)

lemma monday_positive:
  assumes "1 \<le> (n::int)"
  shows "0 < n - (n + 6) mod 7"
proof -
  have "(n + 6) mod 7 = (n - 1) mod 7"
    using mod_add_self2 [of "n - 1" 7] by (simp add: algebra_simps)
  also have "\<dots> \<le> n - 1"
    using assms by (intro zmod_le_nonneg_dividend) simp
  finally show ?thesis by simp
qed

lemma iso_week_of_same_week:
  assumes "iso_week_of n (Y, W, wd)" "(n' + 6) mod 7 = k" "0 \<le> k" "k \<le> 6"
    "n' = n - (n + 6) mod 7 + k"
  shows "iso_week_of n' (Y, W, k + 1)"
proof -
  define w where "w = isoweek1monday Y"
  define w1 where "w1 = isoweek1monday (Y + 1)"
  have m: "(w + 6) mod 7 = 0" "(w1 + 6) mod 7 = 0"
    unfolding w_def w1_def by (rule isoweek1monday_props)+
  from assms(1) have a: "w \<le> n" "n < w1" "W = (n - w) div 7 + 1"
    by (simp_all add: iso_week_of_def w_def w1_def)
  have s: "(n + 6) mod 7 = (n - w) mod 7" using m(1) by (rule mod7_shift [symmetric])
  have s1: "(n + 6) mod 7 = (n - w1) mod 7" using m(2) by (rule mod7_shift [symmetric])
  have n': "n' = w + 7 * ((n - w) div 7) + k"
    using assms(5) s div_mult_mod_eq [of "n - w" 7] by linarith
  have "0 \<le> (n - w) div 7" using a(1) by (simp add: pos_imp_zdiv_nonneg_iff)
  then have lo: "w \<le> n'" using n' assms(3) by linarith
  have "n' - w = k + ((n - w) div 7) * 7" using n' by simp
  then have "(n' - w) div 7 = (k + ((n - w) div 7) * 7) div 7" by (rule arg_cong)
  also have "\<dots> = (n - w) div 7" using assms(3,4) by (intro div_small) auto
  finally have W: "(n' - w) div 7 = (n - w) div 7" .
  have n'1: "n' = w1 + 7 * ((n - w1) div 7) + k"
    using assms(5) s1 div_mult_mod_eq [of "n - w1" 7] by linarith
  have "(n - w1) div 7 < 0" using a(2) by (simp add: div_neg_pos_less0)
  then have hi: "n' < w1" using n'1 assms(4) by linarith
  show ?thesis
    using lo hi W a(3) assms(2) by (simp add: iso_week_of_def w_def w1_def)
qed

lemma iso_week_of_unique:
  assumes "iso_week_of n (Y, W, wd)" "iso_week_of n (Y', W', wd')"
  shows "Y = Y' \<and> W = W' \<and> wd = wd'"
proof -
  from assms have "Y = Y'"
    by (intro isoweek1monday_unique [of Y n Y']) (simp_all add: iso_week_of_def)
  with assms show ?thesis by (simp add: iso_week_of_def)
qed

lemma strftime_date_string: "strftime_date d = date_string (year d, month d, day d)"
  by (simp add: strftime_date_def date_string_def)

lemma isocalendar_valid:
  assumes "valid_datetime d"
  shows "iso_week_of (toordinal d) (isocalendar d)"
  using valid_toordinal(1,2) [OF assms] by (rule isocalendar_char)

lemma get_week_info_returns:
  assumes v: "valid_datetime d" and iso: "isocalendar d = (Y, W, wd)"
    and r: "toordinal d - weekday d + 6 \<le> MAXORDINAL"
  shows "\<exists>ws we. add_days d (- weekday d) = Inr ws \<and> add_days ws 6 = Inr we \<and>
      isocalendar ws = (Y, W, 1) \<and> isocalendar we = (Y, W, 7) \<and>
      get_week_info d =
        Inr \<lparr>week_id = str_int Y @ ''_W'' @ zfill 2 W, wi_year = Y, wi_week = W,
             wi_week_start = strftime_date ws, wi_week_end = strftime_date we\<rparr> \<and>
      get_week_info d = Inr (iso_week_info Y W) \<and> 1 \<le> W"
proof -
  define n where "n = toordinal d"
  have n1: "1 \<le> n" "n \<le> MAXORDINAL"
    unfolding n_def using v by (rule valid_toordinal)+
  have wk: "weekday d = (n + 6) mod 7" by (simp add: weekday_def n_def)
  have I: "iso_week_of n (Y, W, wd)"
    using isocalendar_valid [OF v] iso by (simp add: n_def)
  from I have W1: "1 \<le> W"
    by (simp add: iso_week_of_def pos_imp_zdiv_nonneg_iff)
  have "0 < toordinal d + - weekday d" "toordinal d + - weekday d \<le> MAXORDINAL"
    using monday_positive [OF n1(1)] n1(2) weekday_range [of d] by (simp_all add: wk n_def)
  then obtain ws where ws: "add_days d (- weekday d) = Inr ws"
      "toordinal ws = toordinal d + - weekday d"
      "(year ws, month ws, day ws) = ord2ymd (toordinal d + - weekday d)"
      "days_before_year (year ws) < toordinal ws" "toordinal ws \<le> days_before_year (year ws + 1)"
    by (rule add_days_Inr)
  have nws: "toordinal ws = n - (n + 6) mod 7 + 0" using ws(2) by (simp add: wk n_def)
  have "0 < toordinal ws + 6" "toordinal ws + 6 \<le> MAXORDINAL"
    using r monday_positive [OF n1(1)] by (simp_all add: nws wk n_def)
  then obtain we where we: "add_days ws 6 = Inr we"
      "toordinal we = toordinal ws + 6"
      "(year we, month we, day we) = ord2ymd (toordinal ws + 6)"
      "days_before_year (year we) < toordinal we" "toordinal we \<le> days_before_year (year we + 1)"
    by (rule add_days_Inr)
  have nwe: "toordinal we = n - (n + 6) mod 7 + 6" using we(2) nws by simp
  have m0: "(toordinal ws + 6) mod 7 = 0" unfolding nws by presburger
  have m6: "(toordinal we + 6) mod 7 = 6" unfolding nwe by presburger
  have Iws: "iso_week_of (toordinal ws) (Y, W, 0 + 1)"
    using I m0 _ _ nws by (rule iso_week_of_same_week) simp_all
  have Iwe: "iso_week_of (toordinal we) (Y, W, 6 + 1)"
    using I m6 _ _ nwe by (rule iso_week_of_same_week) simp_all
  have cws: "isocalendar ws = (Y, W, 1)"
    using iso_week_of_unique [OF Iws, of "fst (isocalendar ws)" "fst (snd (isocalendar ws))"
        "snd (snd (isocalendar ws))"] isocalendar_char [OF ws(4,5)]
    by (simp add: prod_eq_iff)
  have cwe: "isocalendar we = (Y, W, 7)"
    using iso_week_of_unique [OF Iwe, of "fst (isocalendar we)" "fst (snd (isocalendar we))"
        "snd (snd (isocalendar we))"] isocalendar_char [OF we(4,5)]
    by (simp add: prod_eq_iff)
  have g: "get_week_info d =
        Inr \<lparr>week_id = str_int Y @ ''_W'' @ zfill 2 W, wi_year = Y, wi_week = W,
             wi_week_start = strftime_date ws, wi_week_end = strftime_date we\<rparr>"
    using iso ws(1) we(1) by (simp add: get_week_info_def)
  from I have Wn: "W - 1 = (n - isoweek1monday Y) div 7" by (simp add: iso_week_of_def)
  have "(isoweek1monday Y + 6) mod 7 = 0" by (rule isoweek1monday_props)
  then have "(n + 6) mod 7 = (n - isoweek1monday Y) mod 7" by (rule mod7_shift [symmetric])
  then have mon: "toordinal ws = isoweek1monday Y + 7 * (W - 1)"
    unfolding nws Wn using div_mult_mod_eq [of "n - isoweek1monday Y" 7] by linarith
  have "strftime_date ws = date_string (ord2ymd (isoweek1monday Y + 7 * (W - 1)))"
    using ws(3) mon ws(2) by (simp add: strftime_date_string)
  moreover have "strftime_date we = date_string (ord2ymd (isoweek1monday Y + 7 * (W - 1) + 6))"
    using we(3) mon by (simp add: strftime_date_string)
  ultimately have g2: "get_week_info d = Inr (iso_week_info Y W)"
    using g by (simp add: iso_week_info_def)
  from ws(1) we(1) cws cwe g g2 W1 show ?thesis by blast
qed

lemma get_week_info_overflow:
  assumes v: "valid_datetime d" and r: "MAXORDINAL < toordinal d - weekday d + 6"
  shows "get_week_info d = Inl OverflowError"
proof -
  have n1: "1 \<le> toordinal d" "toordinal d \<le> MAXORDINAL"
    using v by (rule valid_toordinal)+
  have wk: "weekday d = (toordinal d + 6) mod 7" by (simp add: weekday_def)
  have "0 < toordinal d + - weekday d" "toordinal d + - weekday d \<le> MAXORDINAL"
    using monday_positive [OF n1(1)] n1(2) weekday_range [of d] by (simp_all add: wk)
  then obtain ws where ws: "add_days d (- weekday d) = Inr ws"
      "toordinal ws = toordinal d + - weekday d"
    by (rule add_days_Inr)
  have "add_days ws 6 = Inl OverflowError"
    using r ws(2) by (intro add_days_Inl) simp
  with ws(1) show ?thesis
    by (simp add: get_week_info_def split: prod.splits)
qed

lemma get_week_info_same_week:
  assumes "valid_datetime d" "valid_datetime d'" "get_week_info d = Inr wi" "get_week_info d' = Inr wi'"
    "week_id wi = week_id wi'"
  shows "wi = wi'"
proof -
  obtain Y W wd where iso: "isocalendar d = (Y, W, wd)" by (cases "isocalendar d")
  obtain Y' W' wd' where iso': "isocalendar d' = (Y', W', wd')" by (cases "isocalendar d'")
  have r: "toordinal d - weekday d + 6 \<le> MAXORDINAL"
    using get_week_info_overflow [OF assms(1)] assms(3) by (cases "toordinal d - weekday d + 6 \<le> MAXORDINAL") auto
  have r': "toordinal d' - weekday d' + 6 \<le> MAXORDINAL"
    using get_week_info_overflow [OF assms(2)] assms(4) by (cases "toordinal d' - weekday d' + 6 \<le> MAXORDINAL") auto
  from get_week_info_returns [OF assms(1) iso r] assms(3)
  have a: "wi = iso_week_info Y W" "1 \<le> W" by auto
  from get_week_info_returns [OF assms(2) iso' r'] assms(4)
  have b: "wi' = iso_week_info Y' W'" "1 \<le> W'" by auto
  from assms(5) a b have "str_int Y @ ''_W'' @ zfill 2 W = str_int Y' @ ''_W'' @ zfill 2 W'"
    by (simp add: iso_week_info_def)
  then have "Y = Y' \<and> W = W'" using a(2) b(2) by (intro week_id_inj) simp_all
  with a b show ?thesis by simp
qed

section \<open>organize_by_week\<close>

lemma datetime_new_valid: "datetime_new y m d h mi s = Inr dt \<Longrightarrow> valid_datetime dt"
  by (auto simp: datetime_new_def valid_datetime_def split: if_splits)

lemma strptime_valid: "strptime sep s = Inr dt \<Longrightarrow> valid_datetime dt"
  by (auto simp: strptime_def dest: datetime_new_valid split: option.splits prod.splits)

lemma week_posts_simps:
  "week_posts [] = []"
  "week_posts ((k, wi, g) # ws) = g @ week_posts ws"
  "week_posts (ws @ ws') = week_posts ws @ week_posts ws'"
  by (simp_all add: week_posts_def)

lemma add_to_week_old:
  assumes "k \<in> set (map fst ws)" "distinct (map fst ws)" "week_id wi = k"
  shows "map fst (add_to_week wi p ws) = map fst ws"
    and "mset (week_posts (add_to_week wi p ws)) = mset (week_posts ws) + {#p#}"
    and "\<forall>e \<in> set (add_to_week wi p ws).
            e \<in> set ws \<or> (\<exists>i g. e = (k, i, g @ [p]) \<and> (k, i, g) \<in> set ws)"
    and "\<exists>i g. (k, i, g @ [p]) \<in> set (add_to_week wi p ws)"
proof -
  let ?f = "\<lambda>(k', i, ps). if k' = k then (k', i, ps @ [p]) else (k', i, ps)"
  have a: "add_to_week wi p ws = map ?f ws"
    using assms(1,3) by (simp add: add_to_week_def)
  show "map fst (add_to_week wi p ws) = map fst ws"
    unfolding a by (induction ws) (auto split: prod.splits)
  show "mset (week_posts (add_to_week wi p ws)) = mset (week_posts ws) + {#p#}"
    unfolding a using assms(1,2)
  proof (induction ws)
    case Nil
    then show ?case by simp
  next
    case (Cons e ws)
    obtain k' i g where e: "e = (k', i, g)" by (cases e)
    show ?case
    proof (cases "k' = k")
      case True
      with Cons.prems e have "k \<notin> set (map fst ws)" by auto
      then have "map ?f ws = ws" by (induction ws) auto
      with True e show ?thesis by (simp add: week_posts_simps)
    next
      case False
      with Cons e show ?thesis by (simp add: week_posts_simps)
    qed
  qed
  show "\<forall>e \<in> set (add_to_week wi p ws).
            e \<in> set ws \<or> (\<exists>i g. e = (k, i, g @ [p]) \<and> (k, i, g) \<in> set ws)"
    unfolding a by (auto split: if_splits)
  from assms(1) obtain i g where "(k, i, g) \<in> set ws" by auto
  then have "?f (k, i, g) \<in> ?f ` set ws" by (rule imageI)
  then have "(k, i, g @ [p]) \<in> set (map ?f ws)" by simp
  then show "\<exists>i g. (k, i, g @ [p]) \<in> set (add_to_week wi p ws)"
    unfolding a by blast
qed

lemma add_to_week_new:
  assumes "k \<notin> set (map fst ws)" "week_id wi = k"
  shows "add_to_week wi p ws = ws @ [(k, wi, [p])]"
proof -
  let ?f = "\<lambda>(k', i, ps). if k' = k then (k', i, ps @ [p]) else (k', i, ps)"
  from assms(1) have "map ?f ws = ws" by (induction ws) auto
  with assms show ?thesis by (simp add: add_to_week_def)
qed

lemma organize_loop_inv:
  assumes "organize_loop ps ws = Inr ws'" "distinct (map fst ws)" "\<forall>e \<in> set ws. week_entry_ok e"
  shows "distinct (map fst ws') \<and> (\<forall>e \<in> set ws'. week_entry_ok e) \<and>
         mset (week_posts ws') = mset (week_posts ws) + mset ps"
  using assms
proof (induction ps arbitrary: ws)
  case Nil
  then show ?case by simp
next
  case (Cons p ps)
  from Cons.prems(1) obtain d wi where
    d: "strptime expect_T (datetime p) = Inr d" and wi: "get_week_info d = Inr wi"
    and rest: "organize_loop ps (add_to_week wi p ws) = Inr ws'"
    by (auto split: sum.splits)
  have vd: "valid_datetime d" using d by (rule strptime_valid)
  define k where "k = week_id wi"
  have "distinct (map fst (add_to_week wi p ws)) \<and> (\<forall>e \<in> set (add_to_week wi p ws). week_entry_ok e) \<and>
        mset (week_posts (add_to_week wi p ws)) = mset (week_posts ws) + {#p#}"
  proof (cases "k \<in> set (map fst ws)")
    case True
    note old = add_to_week_old [OF True Cons.prems(2) k_def [symmetric], of p]
    have "week_entry_ok e" if e: "e \<in> set (add_to_week wi p ws)" for e
    proof -
      from old(3) e consider "e \<in> set ws" | i g where "e = (k, i, g @ [p])" "(k, i, g) \<in> set ws"
        by blast
      then show ?thesis
      proof cases
        case 1
        with Cons.prems(3) show ?thesis by simp
      next
        case 2
        with Cons.prems(3) have ok: "week_entry_ok (k, i, g)" by simp
        then obtain d0 where d0: "valid_datetime d0" "get_week_info d0 = Inr i" "week_id i = k"
          by (auto simp: week_entry_ok_def)
        have "i = wi"
          using d0(1) vd d0(2) wi by (rule get_week_info_same_week) (simp add: d0(3) k_def)
        with ok d wi 2(1) show ?thesis by (auto simp: week_entry_ok_def)
      qed
    qed
    with old(1,2) Cons.prems(2) show ?thesis by simp
  next
    case False
    have n: "add_to_week wi p ws = ws @ [(k, wi, [p])]"
      using False k_def [symmetric] by (rule add_to_week_new)
    have "week_entry_ok (k, wi, [p])"
      using vd d wi by (auto simp: week_entry_ok_def k_def)
    with n False Cons.prems(2,3) show ?thesis by (auto simp: week_posts_simps)
  qed
  with Cons.IH [OF rest] show ?case by (simp add: ac_simps)
qed

lemma organize_by_week_sound:
  assumes "organize_by_week ps = Inr ws"
  shows "distinct (map fst ws)" "\<forall>e \<in> set ws. week_entry_ok e" "mset (week_posts ws) = mset ps"
  using organize_loop_inv [of ps "[]" ws] assms by (simp_all add: organize_by_week_def week_posts_simps)

section \<open>The ids of the archive\<close>

lemma all_archive_ids_Cons:
  "all_archive_ids ((k, e) # fs) = map post_id (posts e) @ all_archive_ids fs"
  by (simp add: all_archive_ids_def)

lemma file_ids_subset:
  "load_week_data fs k = Some e \<Longrightarrow> set (map post_id (posts e)) \<subseteq> set (all_archive_ids fs)"
  by (induction fs) (auto simp: load_week_data_def all_archive_ids_def split: if_splits)

lemma ids_save_week_data:
  assumes "mset (map post_id (posts data)) =
           mset (map post_id (case load_week_data fs k of None \<Rightarrow> [] | Some e \<Rightarrow> posts e)) + X"
  shows "mset (all_archive_ids (save_week_data k data fs)) = mset (all_archive_ids fs) + X"
  using assms
proof (induction fs)
  case Nil
  then show ?case by (simp add: all_archive_ids_def load_week_data_def)
next
  case (Cons a fs)
  obtain k' e where a: "a = (k', e)" by (cases a)
  show ?case
  proof (cases "k' = k")
    case True
    with Cons.prems a show ?thesis
      by (simp add: all_archive_ids_Cons load_week_data_def)
  next
    case False
    with Cons.prems a have "mset (map post_id (posts data)) =
           mset (map post_id (case load_week_data fs k of None \<Rightarrow> [] | Some e \<Rightarrow> posts e)) + X"
      by (simp add: load_week_data_def)
    from Cons.IH [OF this] False a show ?thesis
      by (simp add: all_archive_ids_Cons)
  qed
qed

lemma merged_posts_all_new:
  assumes "\<forall>e. existing = Some e \<longrightarrow> (\<forall>p \<in> set g. post_id p \<notin> post_id ` set (posts e))"
  shows "merged_posts existing g = (case existing of None \<Rightarrow> [] | Some e \<Rightarrow> posts e) @ g"
proof (cases existing)
  case None
  then show ?thesis by (simp add: merged_posts_def)
next
  case (Some e)
  with assms have "filter (\<lambda>p. post_id p \<notin> set (map post_id (posts e))) g = g"
    by (auto simp: filter_id_conv)
  with Some show ?thesis by (simp add: merged_posts_def)
qed

lemma ids_merge_and_persist:
  assumes "\<forall>e. load_week_data fs k = Some e \<longrightarrow> (\<forall>p \<in> set g. post_id p \<notin> post_id ` set (posts e))"
  shows "mset (all_archive_ids (merge_and_persist now k wi g fs)) =
         mset (all_archive_ids fs) + mset (map post_id g)"
proof -
  have "mset (map post_id (sort_reverse datetime (merged_posts (load_week_data fs k) g))) =
      mset (map post_id (case load_week_data fs k of None \<Rightarrow> [] | Some e \<Rightarrow> posts e)) + mset (map post_id g)"
    unfolding merged_posts_all_new [OF assms]
    by (simp add: sort_reverse_def)
  then show ?thesis
    unfolding merge_and_persist_def Let_def by (intro ids_save_week_data) simp
qed

lemma load_merge_and_persist_other:
  "k' \<noteq> k \<Longrightarrow> load_week_data (merge_and_persist now k wi g fs) k' = load_week_data fs k'"
  by (simp add: merge_and_persist_def Let_def load_save_other)

lemma load_merge_and_save_other:
  "k \<notin> set (map fst ws) \<Longrightarrow> load_week_data (merge_and_save clock i ws fs) k = load_week_data fs k"
  by (induction clock i ws fs rule: merge_and_save.induct) (auto simp: load_merge_and_persist_other)

lemma load_merge_and_save:
  assumes "distinct (map fst ws)" "(k, wi, g) \<in> set ws"
  shows "\<exists>j. load_week_data (merge_and_save clock i ws fs) k =
     Some ((create_week_structure (clock j) wi)
       \<lparr>posts := sort_reverse datetime (merged_posts (load_week_data fs k) g),
        total_posts := length (merged_posts (load_week_data fs k) g)\<rparr>)"
  using assms
proof (induction clock i ws fs rule: merge_and_save.induct)
  case (1 clock i fs)
  then show ?case by simp
next
  case (2 clock i wid wi' new_posts rest fs)
  show ?case
  proof (cases "(k, wi, g) = (wid, wi', new_posts)")
    case True
    with "2.prems" have "k \<notin> set (map fst rest)" by auto
    from load_merge_and_save_other [OF this] True show ?thesis
      by (auto simp: load_merge_and_persist)
  next
    case False
    with "2.prems" have in_rest: "(k, wi, g) \<in> set rest" and ne: "k \<noteq> wid"
      by (auto simp: rev_image_eqI)
    from "2.prems" have "distinct (map fst rest)" by simp
    from "2.IH" [OF this in_rest] ne show ?thesis
      by (simp add: load_merge_and_persist_other)
  qed
qed

lemma ids_merge_and_save:
  assumes "distinct (map fst ws)"
    "\<forall>(k, wi, g) \<in> set ws. \<forall>e. load_week_data fs k = Some e \<longrightarrow>
        (\<forall>p \<in> set g. post_id p \<notin> post_id ` set (posts e))"
  shows "mset (all_archive_ids (merge_and_save clock i ws fs)) =
         mset (all_archive_ids fs) + mset (map post_id (week_posts ws))"
  using assms
proof (induction clock i ws fs rule: merge_and_save.induct)
  case (1 clock i fs)
  then show ?case by (simp add: week_posts_simps)
next
  case (2 clock i wid wi new_posts rest fs)
  let ?fs = "merge_and_persist (clock i) wid wi new_posts fs"
  have step: "mset (all_archive_ids ?fs) = mset (all_archive_ids fs) + mset (map post_id new_posts)"
    using "2.prems"(2) by (intro ids_merge_and_persist) simp
  have d: "distinct (map fst rest)" and notin: "wid \<notin> set (map fst rest)"
    using "2.prems"(1) by simp_all
  have r: "post_id p \<notin> post_id ` set (posts e)"
    if a: "(k, wi', g) \<in> set rest" "load_week_data ?fs k = Some e" "p \<in> set g" for k wi' g e p
  proof -
    from a(1) notin have "k \<noteq> wid" by (auto simp: rev_image_eqI)
    with a(2) have "load_week_data fs k = Some e" by (simp add: load_merge_and_persist_other)
    moreover from "2.prems"(2) a(1)
    have "\<forall>e. load_week_data fs k = Some e \<longrightarrow>
        (\<forall>p \<in> set g. post_id p \<notin> post_id ` set (posts e))" by fastforce
    ultimately show ?thesis using a(3) by blast
  qed
  have "\<forall>(k, wi, g) \<in> set rest. \<forall>e. load_week_data ?fs k = Some e \<longrightarrow>
        (\<forall>p \<in> set g. post_id p \<notin> post_id ` set (posts e))"
    using r by blast
  from "2.IH" [OF d this] step show ?case
    by (simp add: week_posts_simps)
qed


lemma crawl_posts_new:
  assumes "crawl_posts fs today fetch = Some (Inr ps)"
  shows "\<forall>p \<in> set ps. post_id p \<notin> set (all_archive_ids fs)"
proof -
  from assms obtain cutoff st where
    c: "crawl_loop fetch (load_all_existing_ids fs) today cutoff 1 initial_state = Some st"
    and ps: "ps = map post.truncate (all_posts st)"
    by (auto simp: crawl_posts_def split: sum.splits)
  from crawl_loop_posts [OF c]
  have "\<forall>pd \<in> set (all_posts st). post_id pd \<notin> load_all_existing_ids fs"
    by (auto simp: initial_state_def)
  then show ?thesis
    unfolding ps by (auto simp: load_all_existing_ids_def post.truncate_def)
qed

lemma main_cases:
  assumes "crawl_posts fs today fetch = Some (Inr ps)" "main today clock fetch fs = Some (Inr fs')"
  obtains "ps = []" "fs' = fs"
  | ws where "ps \<noteq> []" "organize_by_week ps = Inr ws" "fs' = merge_and_save clock 0 ws fs"
  using assms by (auto simp: main_def split: if_splits sum.splits)

lemma week_posts_member:
  "p \<in> set (week_posts ws) \<longleftrightarrow> (\<exists>k wi g. (k, wi, g) \<in> set ws \<and> p \<in> set g)"
  by (auto simp: week_posts_def)

lemma new_posts_pass:
  assumes "crawl_posts fs today fetch = Some (Inr ps)" "organize_by_week ps = Inr ws"
  shows "\<forall>(k, wi, g) \<in> set ws. \<forall>e. load_week_data fs k = Some e \<longrightarrow>
        (\<forall>p \<in> set g. post_id p \<notin> post_id ` set (posts e))"
proof -
  have "post_id p \<notin> post_id ` set (posts e)"
    if a: "(k, wi, g) \<in> set ws" "load_week_data fs k = Some e" "p \<in> set g" for k wi g e p
  proof -
    from a(1,3) have "p \<in> set (week_posts ws)" by (auto simp: week_posts_member)
    then have "p \<in> set ps"
      using organize_by_week_sound(3) [OF assms(2)] by (metis set_mset_mset)
    with crawl_posts_new [OF assms(1)] have "post_id p \<notin> set (all_archive_ids fs)" by simp
    with file_ids_subset [OF a(2)] show ?thesis by auto
  qed
  then show ?thesis by blast
qed

lemma main_ids:
  assumes "crawl_posts fs today fetch = Some (Inr ps)" "main today clock fetch fs = Some (Inr fs')"
  shows "mset (all_archive_ids fs') = mset (all_archive_ids fs) + mset (map post_id ps)"
  using assms
proof (cases rule: main_cases)
  case 1
  then show ?thesis by simp
next
  case (2 ws)
  have "mset (all_archive_ids fs') = mset (all_archive_ids fs) + mset (map post_id (week_posts ws))"
    unfolding 2(3) using organize_by_week_sound(1) [OF 2(2)] new_posts_pass [OF assms(1) 2(2)]
    by (rule ids_merge_and_save)
  also have "mset (map post_id (week_posts ws)) = mset (map post_id ps)"
    using organize_by_week_sound(3) [OF 2(2)] by (metis mset_map)
  finally show ?thesis .
qed

lemma main_distinct:
  assumes "distinct (all_archive_ids fs)" "crawl_posts fs today fetch = Some (Inr ps)"
    "distinct (map post_id ps)" "main today clock fetch fs = Some (Inr fs')"
  shows "distinct (all_archive_ids fs')"
proof -
  have "mset (all_archive_ids fs') = mset (all_archive_ids fs @ map post_id ps)"
    using main_ids [OF assms(2,4)] by simp
  moreover have "distinct (all_archive_ids fs @ map post_id ps)"
    using assms(1,3) crawl_posts_new [OF assms(2)] by auto
  ultimately show ?thesis by (metis mset_eq_imp_distinct_iff)
qed

lemma main_Inr_crawl:
  assumes "main today clock fetch fs = Some (Inr fs')"
  obtains ps where "crawl_posts fs today fetch = Some (Inr ps)"
  using assms by (auto simp: main_def split: option.splits sum.splits)

lemma run_sequence_distinct:
  assumes "distinct (all_archive_ids fs)" "collects_distinct rs fs" "run_sequence rs fs = Some fs'"
  shows "distinct (all_archive_ids fs')"
  using assms
proof (induction rs arbitrary: fs)
  case Nil
  then show ?case by simp
next
  case (Cons r rs)
  obtain today clock fetch where r: "r = (today, clock, fetch)" by (cases r)
  show ?case
  proof (cases "main today clock fetch fs")
    case None
    with Cons.prems(3) r show ?thesis by simp
  next
    case (Some res)
    show ?thesis
    proof (cases res)
      case (Inl e)
      with Some Cons.prems r have "collects_distinct rs fs" "run_sequence rs fs = Some fs'"
        by simp_all
      with Cons.IH Cons.prems(1) show ?thesis by blast
    next
      case (Inr fs1)
      with Some have m: "main today clock fetch fs = Some (Inr fs1)" by simp
      then obtain ps where c: "crawl_posts fs today fetch = Some (Inr ps)"
        by (rule main_Inr_crawl)
      with Cons.prems(2) r have dps: "distinct (map post_id ps)" by simp
      have "distinct (all_archive_ids fs1)"
        by (rule main_distinct [OF Cons.prems(1) c dps m])
      moreover from m Cons.prems r have "collects_distinct rs fs1" "run_sequence rs fs1 = Some fs'"
        by simp_all
      ultimately show ?thesis using Cons.IH by blast
    qed
  qed
qed

lemma main_places_record:
  assumes "crawl_posts fs today fetch = Some (Inr ps)" "main today clock fetch fs = Some (Inr fs')"
    "p \<in> set ps"
  shows "\<exists>d wi f. strptime expect_T (datetime p) = Inr d \<and> get_week_info d = Inr wi \<and>
     load_week_data fs' (week_id wi) = Some f \<and> week f = week_id wi \<and>
     week_start f = wi_week_start wi \<and> week_end f = wi_week_end wi \<and> p \<in> set (posts f)"
  using assms(1,2)
proof (cases rule: main_cases)
  case 1
  with assms(3) show ?thesis by simp
next
  case (2 ws)
  from assms(3) organize_by_week_sound(3) [OF 2(2)] have "p \<in> set (week_posts ws)"
    by (metis set_mset_mset)
  then obtain k wi g where e: "(k, wi, g) \<in> set ws" "p \<in> set g"
    by (auto simp: week_posts_member)
  with organize_by_week_sound(2) [OF 2(2)] have ok: "week_entry_ok (k, wi, g)" by blast
  with e(2) obtain d where d: "strptime expect_T (datetime p) = Inr d" "get_week_info d = Inr wi"
    and k: "week_id wi = k"
    by (auto simp: week_entry_ok_def)
  from load_merge_and_save [OF organize_by_week_sound(1) [OF 2(2)] e(1), of clock 0 fs]
  obtain j where l: "load_week_data fs' k =
     Some ((create_week_structure (clock j) wi)
       \<lparr>posts := sort_reverse datetime (merged_posts (load_week_data fs k) g),
        total_posts := length (merged_posts (load_week_data fs k) g)\<rparr>)"
    unfolding 2(3) by blast
  have "\<forall>e. load_week_data fs k = Some e \<longrightarrow> (\<forall>p \<in> set g. post_id p \<notin> post_id ` set (posts e))"
    using new_posts_pass [OF assms(1) 2(2)] e(1) by fastforce
  then have "merged_posts (load_week_data fs k) g =
      (case load_week_data fs k of None \<Rightarrow> [] | Some e \<Rightarrow> posts e) @ g"
    by (rule merged_posts_all_new)
  with e(2) have "p \<in> set (sort_reverse datetime (merged_posts (load_week_data fs k) g))"
    by (simp add: set_sort_reverse)
  with d k l show ?thesis
    by (auto simp: create_week_structure_def)
qed


end
